theory Spec2Isabelle
  imports Main "HOL-Library.Word"
begin

unbundle bit_operations_syntax

section \<open>Bytes and the C library\<close>

text \<open>
  The parser works on \<^verbatim>\<open>uint8_t\<close> buffers given as a pointer and a size. A buffer
  slice is modelled by the list of its bytes, so that the C \<^verbatim>\<open>size\<close> argument is the
  length of the list and \<^verbatim>\<open>data[i]\<close> is read only under the guard \<^verbatim>\<open>i < size\<close>
  that the source has. Sizes (\<^verbatim>\<open>size_t\<close>) are natural numbers: every size below is
  the length of an object in memory, far from the 64-bit limit; the one place where the source
  lets a \<^verbatim>\<open>size_t\<close> go below zero is modelled as an error.

  The \<^verbatim>\<open>ctype.h\<close> predicates are those of the "C" locale, which is the locale of a
  program that never calls \<^verbatim>\<open>setlocale\<close> (the library does not).
\<close>

type_synonym byte = char

datatype error = AssertionFailed | OutOfBounds

definition isupper :: "byte \<Rightarrow> bool" where
  "isupper c = (65 \<le> (of_char c :: nat) \<and> (of_char c :: nat) \<le> 90)"

definition islower :: "byte \<Rightarrow> bool" where
  "islower c = (97 \<le> (of_char c :: nat) \<and> (of_char c :: nat) \<le> 122)"

definition isdigit :: "byte \<Rightarrow> bool" where
  "isdigit c = (48 \<le> (of_char c :: nat) \<and> (of_char c :: nat) \<le> 57)"

definition isalpha :: "byte \<Rightarrow> bool" where
  "isalpha c = (isupper c \<or> islower c)"

definition isalnum :: "byte \<Rightarrow> bool" where
  "isalnum c = (isalpha c \<or> isdigit c)"

definition tolower :: "byte \<Rightarrow> byte" where
  "tolower c = (if isupper c then char_of (of_char c + (32 :: nat)) else c)"

text \<open>
  \<^verbatim>\<open>strchr(s, c) != NULL\<close> for a string literal \<^verbatim>\<open>s\<close>: the terminating NUL of
  the literal is part of the string that \<^verbatim>\<open>strchr\<close> searches, so the byte 0 is found too.
\<close>

definition strchr_found :: "string \<Rightarrow> byte \<Rightarrow> bool" where
  "strchr_found s c = (c \<in> set s \<or> c = CHR 0x00)"

section \<open>The growable byte buffer (buffer.c)\<close>

text \<open>
  \<^verbatim>\<open>struct sd_buf { uint8_t *data; size_t size; size_t asize; size_t unit; }\<close>.
  The field \<open>buf_data\<close> holds the \<^verbatim>\<open>size\<close> bytes in use, so \<^verbatim>\<open>size\<close> is its length;
  the bytes between \<^verbatim>\<open>size\<close> and \<^verbatim>\<open>asize\<close> are never read.
  \<^verbatim>\<open>realloc\<close> is a parameter of the model: \<open>realloc_ok n\<close> tells whether the allocator
  grants a block of \<open>n\<close> bytes. A failed \<^verbatim>\<open>assert\<close> aborts the program: it is the
  result \<open>Inl AssertionFailed\<close>.
\<close>

record sd_buf =
  buf_data :: "byte list"
  asize :: nat
  unit :: nat

definition bufsize :: "sd_buf \<Rightarrow> nat" where
  "bufsize buf = length (buf_data buf)"

definition BUFFER_MAX_ALLOC_SIZE :: nat where
  "BUFFER_MAX_ALLOC_SIZE = 1024 * 1024 * 16"

definition BUF_OK :: int where
  "BUF_OK = 0"

definition BUF_ENOMEM :: int where
  "BUF_ENOMEM = - 1"

text \<open>\<^verbatim>\<open>while (neoasz < neosz) neoasz += buf->unit;\<close> It is reached with a nonzero unit only.\<close>

function grow_asize :: "nat \<Rightarrow> nat \<Rightarrow> nat \<Rightarrow> nat" where
  "grow_asize neoasz neosz u =
     (if neoasz < neosz \<and> 0 < u then grow_asize (neoasz + u) neosz u else neoasz)"
  by pat_completeness auto
termination
  by (relation "measure (\<lambda>(neoasz, neosz, u). neosz - neoasz)") auto

declare grow_asize.simps [simp del]

definition sd_bufgrow :: "(nat \<Rightarrow> bool) \<Rightarrow> sd_buf \<Rightarrow> nat \<Rightarrow> error + (int \<times> sd_buf)" where
  "sd_bufgrow realloc_ok buf neosz =
     (if unit buf = 0 then Inl AssertionFailed
      else if neosz > BUFFER_MAX_ALLOC_SIZE then Inr (BUF_ENOMEM, buf)
      else if asize buf \<ge> neosz then Inr (BUF_OK, buf)
      else
        let neoasz = grow_asize (asize buf + unit buf) neosz (unit buf) in
        if \<not> realloc_ok neoasz then Inr (BUF_ENOMEM, buf)
        else Inr (BUF_OK, buf\<lparr>asize := neoasz\<rparr>))"

text \<open>\<^verbatim>\<open>sd_bufnew\<close>: \<open>None\<close> is the NULL that a failed \<^verbatim>\<open>malloc\<close> gives.\<close>

definition sd_bufnew :: "bool \<Rightarrow> nat \<Rightarrow> sd_buf option" where
  "sd_bufnew malloc_ok u =
     (if malloc_ok then Some \<lparr>buf_data = [], asize = 0, unit = u\<rparr> else None)"

definition sd_bufput :: "(nat \<Rightarrow> bool) \<Rightarrow> sd_buf \<Rightarrow> byte list \<Rightarrow> error + sd_buf" where
  "sd_bufput realloc_ok buf bytes =
     (if unit buf = 0 then Inl AssertionFailed
      else if bufsize buf + length bytes > asize buf then
        (case sd_bufgrow realloc_ok buf (bufsize buf + length bytes) of
           Inl e \<Rightarrow> Inl e
         | Inr (rc, buf') \<Rightarrow>
             if rc < 0 then Inr buf' else Inr (buf'\<lparr>buf_data := buf_data buf' @ bytes\<rparr>))
      else Inr (buf\<lparr>buf_data := buf_data buf @ bytes\<rparr>))"

definition sd_bufputc :: "(nat \<Rightarrow> bool) \<Rightarrow> sd_buf \<Rightarrow> byte \<Rightarrow> error + sd_buf" where
  "sd_bufputc realloc_ok buf c =
     (if unit buf = 0 then Inl AssertionFailed
      else if bufsize buf + 1 > asize buf then
        (case sd_bufgrow realloc_ok buf (bufsize buf + 1) of
           Inl e \<Rightarrow> Inl e
         | Inr (rc, buf') \<Rightarrow>
             if rc < 0 then Inr buf' else Inr (buf'\<lparr>buf_data := buf_data buf' @ [c]\<rparr>))
      else Inr (buf\<lparr>buf_data := buf_data buf @ [c]\<rparr>))"

section \<open>The autolink scanner (autolink.c)\<close>

text \<open>
  \<^verbatim>\<open>strncasecmp\<close> of the C library: at most \<open>n\<close> bytes are compared after
  \<^verbatim>\<open>tolower\<close>, and the comparison stops behind a NUL. Both arguments are C strings: a list
  that has run out reads as the terminating NUL.
\<close>

fun strncasecmp :: "byte list \<Rightarrow> byte list \<Rightarrow> nat \<Rightarrow> int" where
  "strncasecmp s1 s2 0 = 0"
| "strncasecmp s1 s2 (Suc n) =
     (let c1 = (case s1 of [] \<Rightarrow> CHR 0x00 | a # _ \<Rightarrow> a);
          c2 = (case s2 of [] \<Rightarrow> CHR 0x00 | b # _ \<Rightarrow> b);
          d = int (of_char (tolower c1)) - int (of_char (tolower c2))
      in if d \<noteq> 0 then d else if c1 = CHR 0x00 then 0 else strncasecmp (tl s1) (tl s2) n)"

definition valid_uris :: "string list" where
  "valid_uris = [''/'', ''http://'', ''https://'', ''ftp://'', ''mailto:'']"

definition valid_uris_count :: nat where
  "valid_uris_count = 5"

text \<open>The \<^verbatim>\<open>for\<close> loop of \<^verbatim>\<open>sd_autolink_issafe\<close>, from index \<open>i\<close> on.\<close>

function issafe_loop :: "byte list \<Rightarrow> nat \<Rightarrow> int" where
  "issafe_loop link i =
     (if i < valid_uris_count then
        (let len = length (valid_uris ! i) in
         if length link > len \<and> strncasecmp link (valid_uris ! i) len = 0
            \<and> isalnum (link ! len)
         then 1
         else issafe_loop link (i + 1))
      else 0)"
  by pat_completeness auto
termination
  by (relation "measure (\<lambda>(link, i). valid_uris_count - i)") auto

declare issafe_loop.simps [simp del]

definition sd_autolink_issafe :: "byte list \<Rightarrow> int" where
  "sd_autolink_issafe link = issafe_loop link 0"

text \<open>
  In the words of the specification: \<open>link\<close> begins, case-insensitively, with \<open>p\<close>.
\<close>

definition ci_prefix :: "string \<Rightarrow> byte list \<Rightarrow> bool" where
  "ci_prefix p link =
     (length p \<le> length link \<and> map tolower (take (length p) link) = map tolower p)"

section \<open>Trimming the end of an autolink (autolink.c)\<close>

text \<open>
  \<^verbatim>\<open>autolink_delim(data, link_end, max_rewind, size)\<close>; \<^verbatim>\<open>size\<close> is the length of
  \<open>data\<close>, and neither it nor \<^verbatim>\<open>max_rewind\<close> is used by the function. First the
  \<^verbatim>\<open>for\<close> loop that cuts the span at the first \<open><\<close>.
\<close>

function find_langle :: "byte list \<Rightarrow> nat \<Rightarrow> nat \<Rightarrow> nat" where
  "find_langle data i link_end =
     (if i < link_end then
        (if data ! i = CHR ''<'' then i else find_langle data (i + 1) link_end)
      else link_end)"
  by pat_completeness auto
termination
  by (relation "measure (\<lambda>(data, i, link_end). link_end - i)") auto

declare find_langle.simps [simp del]

text \<open>\<^verbatim>\<open>while (new_end > 0 && isalpha(data[new_end])) new_end--;\<close>\<close>

function alpha_back :: "byte list \<Rightarrow> nat \<Rightarrow> nat" where
  "alpha_back data new_end =
     (if new_end > 0 \<and> isalpha (data ! new_end) then alpha_back data (new_end - 1)
      else new_end)"
  by pat_completeness auto
termination
  by (relation "measure (\<lambda>(data, new_end). new_end)") auto

declare alpha_back.simps [simp del]

lemma alpha_back_le: "alpha_back data new_end \<le> new_end"
proof (induction data new_end rule: alpha_back.induct)
  case (1 data new_end)
  then show ?case by (subst alpha_back.simps) auto
qed

text \<open>
  The \<^verbatim>\<open>while (link_end > 0)\<close> loop that peels the end of the span. With
  \<^verbatim>\<open>link_end\<close> = 1 and a \<open>;\<close> as the only byte, \<^verbatim>\<open>link_end - 2\<close> wraps around and
  the source reads outside \<open>data\<close>: that is the result \<open>Inl OutOfBounds\<close>.
\<close>

function peel_end :: "byte list \<Rightarrow> nat \<Rightarrow> error + nat" where
  "peel_end data link_end =
     (if link_end > 0 then
        if strchr_found ''?!.,'' (data ! (link_end - 1)) then peel_end data (link_end - 1)
        else if data ! (link_end - 1) = CHR '';'' then
          if link_end < 2 then Inl OutOfBounds
          else if alpha_back data (link_end - 2) < link_end - 2
                  \<and> data ! alpha_back data (link_end - 2) = CHR ''&''
          then peel_end data (alpha_back data (link_end - 2))
          else peel_end data (link_end - 1)
        else Inr link_end
      else Inr link_end)"
  by pat_completeness auto
termination
proof (relation "measure (\<lambda>(data, link_end). link_end)")
  show "wf (measure (\<lambda>(data, link_end). link_end))" by simp
next
  fix data :: "byte list" and link_end :: nat
  assume "0 < link_end"
  then show "((data, link_end - 1), (data, link_end)) \<in> measure (\<lambda>(data, link_end). link_end)"
    by simp
next
  fix data :: "byte list" and link_end :: nat
  assume "\<not> link_end < 2"
  then show "((data, alpha_back data (link_end - 2)), (data, link_end))
      \<in> measure (\<lambda>(data, link_end). link_end)"
    using alpha_back_le [of data "link_end - 2"] by simp
next
  fix data :: "byte list" and link_end :: nat
  assume "0 < link_end"
  then show "((data, link_end - 1), (data, link_end)) \<in> measure (\<lambda>(data, link_end). link_end)"
    by simp
qed

declare peel_end.simps [simp del]

text \<open>The \<^verbatim>\<open>switch (cclose)\<close>: the opening byte of a closing byte, 0 for any other byte.\<close>

definition copen_of :: "byte \<Rightarrow> byte" where
  "copen_of cclose =
     (if cclose = CHR 0x22 then CHR 0x22
      else if cclose = CHR 0x27 then CHR 0x27
      else if cclose = CHR '')'' then CHR ''(''
      else if cclose = CHR '']'' then CHR ''[''
      else if cclose = CHR ''}'' then CHR ''{''
      else CHR 0x00)"

text \<open>The counting loop \<^verbatim>\<open>while (j < link_end)\<close>.\<close>

function count_delims ::
  "byte list \<Rightarrow> byte \<Rightarrow> byte \<Rightarrow> nat \<Rightarrow> nat \<Rightarrow> nat \<Rightarrow> nat \<Rightarrow> nat \<times> nat" where
  "count_delims data copen cclose link_end j opening closing =
     (if j < link_end then
        (if data ! j = copen
         then count_delims data copen cclose link_end (j + 1) (opening + 1) closing
         else if data ! j = cclose
         then count_delims data copen cclose link_end (j + 1) opening (closing + 1)
         else count_delims data copen cclose link_end (j + 1) opening closing)
      else (opening, closing))"
  by pat_completeness auto
termination
  by (relation "measure (\<lambda>(data, copen, cclose, link_end, j, opening, closing). link_end - j)")
    auto

declare count_delims.simps [simp del]

definition autolink_delim :: "byte list \<Rightarrow> nat \<Rightarrow> nat \<Rightarrow> error + nat" where
  "autolink_delim data link_end max_rewind =
     (case peel_end data (find_langle data 0 link_end) of
        Inl err \<Rightarrow> Inl err
      | Inr link_end1 \<Rightarrow>
          if link_end1 = 0 then Inr 0
          else
            let cclose = data ! (link_end1 - 1);
                copen = copen_of cclose
            in if copen \<noteq> CHR 0x00 then
                 (case count_delims data copen cclose link_end1 0 0 0 of
                    (opening, closing) \<Rightarrow>
                      if closing \<noteq> opening then Inr (link_end1 - 1) else Inr link_end1)
               else Inr link_end1)"

text \<open>
  The balancing step in the words of the specification: while the terminal byte of the span
  closes a pair whose openings and closings across the span differ in number, shrink the span
  by one and test again.
\<close>

function delim_retest :: "byte list \<Rightarrow> nat \<Rightarrow> nat" where
  "delim_retest data link_end =
     (if link_end > 0 \<and> copen_of (data ! (link_end - 1)) \<noteq> CHR 0x00
         \<and> fst (count_delims data (copen_of (data ! (link_end - 1))) (data ! (link_end - 1))
                  link_end 0 0 0)
           \<noteq> snd (count_delims data (copen_of (data ! (link_end - 1))) (data ! (link_end - 1))
                  link_end 0 0 0)
      then delim_retest data (link_end - 1)
      else link_end)"
  by pat_completeness auto
termination
  by (relation "measure (\<lambda>(data, link_end). link_end)") auto

declare delim_retest.simps [simp del]

definition autolink_delim_retest :: "byte list \<Rightarrow> nat \<Rightarrow> nat \<Rightarrow> error + nat" where
  "autolink_delim_retest data link_end max_rewind =
     (case peel_end data (find_langle data 0 link_end) of
        Inl err \<Rightarrow> Inl err
      | Inr link_end1 \<Rightarrow> Inr (delim_retest data link_end1))"

text \<open>
  The cut and the peeling in the words of the specification, on lists. The span is cut at its
  first \<open><\<close>: that is \<open>takeWhile (\<lambda>b. b \<noteq> CHR ''<'')\<close> of it. \<open>peel_spec\<close> peels the end
  of a span that is given in reverse, last byte first: a trailing \<open>?\<close>, \<open>!\<close>, \<open>.\<close>, \<open>,\<close> or
  NUL is dropped; a trailing \<open>;\<close> is dropped with the letters and the \<open>&\<close> before it when it
  closes \<open>&\<close>, one letter or more, \<open>;\<close>, and alone otherwise; this goes on until the span is
  empty or ends in another byte. \<open>None\<close> is for the \<open>;\<close> that is the only byte of the span,
  where the source reads outside the array.
\<close>

function peel_spec :: "byte list \<Rightarrow> byte list option" where
  "peel_spec [] = Some []"
| "peel_spec (c # rest) =
     (if c \<in> {CHR ''?'', CHR ''!'', CHR ''.'', CHR '','', CHR 0x00} then peel_spec rest
      else if c = CHR '';'' then
        (if rest = [] then None
         else if takeWhile isalpha rest \<noteq> [] \<and> dropWhile isalpha rest \<noteq> []
                 \<and> hd (dropWhile isalpha rest) = CHR ''&''
         then peel_spec (tl (dropWhile isalpha rest))
         else peel_spec rest)
      else Some (c # rest))"
  by pat_completeness auto
termination
proof (relation "measure length")
  show "wf (measure (length :: byte list \<Rightarrow> nat))" by simp
next
  fix c :: byte and rest :: "byte list"
  show "(rest, c # rest) \<in> measure length" by simp
next
  fix c :: byte and rest :: "byte list"
  have "length (tl (dropWhile isalpha rest)) \<le> length rest"
    using length_dropWhile_le [of isalpha rest] by simp
  then show "(tl (dropWhile isalpha rest), c # rest) \<in> measure length" by simp
next
  fix c :: byte and rest :: "byte list"
  show "(rest, c # rest) \<in> measure length" by simp
qed

declare peel_spec.simps [simp del]

section \<open>The reference table (markdown.c)\<close>

text \<open>
  \<^verbatim>\<open>struct link_ref { unsigned int id; struct sd_buf *link; struct sd_buf *title;
  struct link_ref *next; }\<close>. A chain of records linked by \<^verbatim>\<open>next\<close> is the list of its
  records, head first; a NULL buffer pointer is \<open>None\<close>. The table
  \<^verbatim>\<open>struct link_ref *refs[REF_TABLE_SIZE]\<close> is the list of its eight chains.
  \<^verbatim>\<open>unsigned int\<close> has 32 bits.
\<close>

definition REF_TABLE_SIZE :: nat where
  "REF_TABLE_SIZE = 8"

record link_ref =
  ref_id :: "32 word"
  ref_link :: "sd_buf option"
  ref_title :: "sd_buf option"

text \<open>The \<^verbatim>\<open>for\<close> loop of \<^verbatim>\<open>hash_link_ref\<close>, from index \<open>i\<close> on.\<close>

function hash_loop :: "byte list \<Rightarrow> nat \<Rightarrow> 32 word \<Rightarrow> 32 word" where
  "hash_loop link_ref i hash =
     (if i < length link_ref then
        hash_loop link_ref (i + 1)
          (of_char (tolower (link_ref ! i)) + push_bit 6 hash + push_bit 16 hash - hash)
      else hash)"
  by pat_completeness auto
termination
  by (relation "measure (\<lambda>(link_ref, i, hash). length link_ref - i)") auto

declare hash_loop.simps [simp del]

definition hash_link_ref :: "byte list \<Rightarrow> 32 word" where
  "hash_link_ref link_ref = hash_loop link_ref 0 0"

text \<open>
  \<^verbatim>\<open>add_link_ref\<close>: \<open>calloc_ok\<close> is the outcome of \<^verbatim>\<open>calloc\<close>, which gives a
  record of zeros. The pointer that is returned points to the head of the chain that received
  the record; the model returns the index of that chain, and \<open>None\<close> for NULL.
\<close>

definition add_link_ref ::
  "bool \<Rightarrow> link_ref list list \<Rightarrow> byte list \<Rightarrow> nat option \<times> link_ref list list" where
  "add_link_ref calloc_ok references name =
     (if \<not> calloc_ok then (None, references)
      else
        let ref = \<lparr>ref_id = hash_link_ref name, ref_link = None, ref_title = None\<rparr>;
            b = unat (ref_id ref) mod REF_TABLE_SIZE
        in (Some b, references[b := ref # references ! b]))"

text \<open>The \<^verbatim>\<open>while\<close> loop of \<^verbatim>\<open>find_link_ref\<close> along one chain.\<close>

fun find_chain :: "link_ref list \<Rightarrow> 32 word \<Rightarrow> link_ref option" where
  "find_chain [] hash = None"
| "find_chain (ref # next) hash = (if ref_id ref = hash then Some ref else find_chain next hash)"

definition find_link_ref :: "link_ref list list \<Rightarrow> byte list \<Rightarrow> link_ref option" where
  "find_link_ref references name =
     (let hash = hash_link_ref name
      in find_chain (references ! (unat hash mod REF_TABLE_SIZE)) hash)"

text \<open>
  What \<^verbatim>\<open>is_ref\<close> does with the pointer it gets from \<^verbatim>\<open>add_link_ref\<close>: the
  assignments \<^verbatim>\<open>ref->link = ...\<close> and \<^verbatim>\<open>ref->title = ...\<close> write to the record at the
  head of chain \<open>b\<close>.
\<close>

definition ref_assign ::
  "link_ref list list \<Rightarrow> nat \<Rightarrow> sd_buf option \<Rightarrow> sd_buf option \<Rightarrow> link_ref list list" where
  "ref_assign references b l t =
     (case references ! b of
        [] \<Rightarrow> references
      | ref # next \<Rightarrow> references[b := ref\<lparr>ref_link := l, ref_title := t\<rparr> # next])"

text \<open>
  The table at the start of a render (\<^verbatim>\<open>memset(&md->refs, 0x0, ...)\<close>), and the table
  after the reference definitions of the first pass: each is a label with the buffers
  \<^verbatim>\<open>is_ref\<close> builds for it and the outcome of its \<^verbatim>\<open>calloc\<close>; when that fails
  \<^verbatim>\<open>is_ref\<close> returns 0 and stores nothing.
\<close>

definition empty_refs :: "link_ref list list" where
  "empty_refs = replicate REF_TABLE_SIZE []"

fun store_refs ::
  "(bool \<times> byte list \<times> sd_buf option \<times> sd_buf option) list \<Rightarrow> link_ref list list
   \<Rightarrow> link_ref list list" where
  "store_refs [] references = references"
| "store_refs ((calloc_ok, name, l, t) # defs) references =
     (case add_link_ref calloc_ok references name of
        (None, references') \<Rightarrow> store_refs defs references'
      | (Some b, references') \<Rightarrow> store_refs defs (ref_assign references' b l t))"

text \<open>
  The definitions of the first pass whose record was stored and whose label has the
  fingerprint of \<open>name\<close>, in the order of the document.
\<close>

definition matching_defs ::
  "(bool \<times> byte list \<times> sd_buf option \<times> sd_buf option) list \<Rightarrow> byte list
   \<Rightarrow> (bool \<times> byte list \<times> sd_buf option \<times> sd_buf option) list" where
  "matching_defs defs name =
     filter (\<lambda>(calloc_ok, n, l, t). calloc_ok \<and> hash_link_ref n = hash_link_ref name) defs"

section \<open>The inline recognizers (markdown.c)\<close>

text \<open>
  A recognizer gets the output buffer \<^verbatim>\<open>ob\<close>, the bytes from the active byte on
  (\<^verbatim>\<open>data\<close>, \<^verbatim>\<open>size\<close>) and the renderer's callbacks. A callback is a function of the
  renderer: it gets the output buffer, its text argument and the renderer's own state
  (\<^verbatim>\<open>opaque\<close>), and may change the buffer and that state; a span callback also returns an
  \<^verbatim>\<open>int\<close>. A callback that is NULL is \<open>None\<close>. The recognizer returns the number of
  bytes it has consumed, with the buffer and the renderer's state.
\<close>

text \<open>\<^verbatim>\<open>while (end < size && isalnum(data[end])) end++;\<close>\<close>

function entity_scan :: "byte list \<Rightarrow> nat \<Rightarrow> nat" where
  "entity_scan data e =
     (if e < length data \<and> isalnum (data ! e) then entity_scan data (e + 1) else e)"
  by pat_completeness auto
termination
  by (relation "measure (\<lambda>(data, e). length data - e)") auto

declare entity_scan.simps [simp del]

definition char_entity ::
  "(nat \<Rightarrow> bool) \<Rightarrow> (sd_buf \<Rightarrow> byte list \<Rightarrow> 'o \<Rightarrow> sd_buf \<times> 'o) option
   \<Rightarrow> sd_buf \<Rightarrow> 'o \<Rightarrow> byte list \<Rightarrow> error + (nat \<times> sd_buf \<times> 'o)" where
  "char_entity realloc_ok cb_entity ob opaque data =
     (let e0 = (if 1 < length data \<and> data ! 1 = CHR ''#'' then 2 else 1);
          e1 = entity_scan data e0
      in if e1 < length data \<and> data ! e1 = CHR '';'' then
           (case cb_entity of
              Some entity \<Rightarrow>
                (case entity ob (take (e1 + 1) data) opaque of
                   (ob', opaque') \<Rightarrow> Inr (e1 + 1, ob', opaque'))
            | None \<Rightarrow>
                (case sd_bufput realloc_ok ob (take (e1 + 1) data) of
                   Inl err \<Rightarrow> Inl err
                 | Inr ob' \<Rightarrow> Inr (e1 + 1, ob', opaque)))
         else Inr (0, ob, opaque))"

text \<open>
  \<^verbatim>\<open>char_codespan\<close>. Its four loops: the opening run of backticks,
  \<^verbatim>\<open>while (nb < size && data[nb] == '`') nb++;\<close>
\<close>

function count_ticks :: "byte list \<Rightarrow> nat \<Rightarrow> nat" where
  "count_ticks data nb =
     (if nb < length data \<and> data ! nb = CHR ''`'' then count_ticks data (nb + 1) else nb)"
  by pat_completeness auto
termination
  by (relation "measure (\<lambda>(data, nb). length data - nb)") auto

declare count_ticks.simps [simp del]

text \<open>
  the search for the closing delimiter,
  \<^verbatim>\<open>for (end = nb; end < size && i < nb; end++) { if (data[end] == '`') i++; else i = 0; }\<close>
  which gives the final \<^verbatim>\<open>end\<close> and \<^verbatim>\<open>i\<close>,
\<close>

function find_close :: "byte list \<Rightarrow> nat \<Rightarrow> nat \<Rightarrow> nat \<Rightarrow> nat \<times> nat" where
  "find_close data nb e i =
     (if e < length data \<and> i < nb then
        find_close data nb (e + 1) (if data ! e = CHR ''`'' then i + 1 else 0)
      else (e, i))"
  by pat_completeness auto
termination
  by (relation "measure (\<lambda>(data, nb, e, i). length data - e)") auto

declare find_close.simps [simp del]

text \<open>
  and the two trimming loops,
  \<^verbatim>\<open>while (f_begin < end && data[f_begin] == ' ') f_begin++;\<close> and
  \<^verbatim>\<open>while (f_end > nb && data[f_end-1] == ' ') f_end--;\<close>
\<close>

function trim_begin :: "byte list \<Rightarrow> nat \<Rightarrow> nat \<Rightarrow> nat" where
  "trim_begin data f_begin e =
     (if f_begin < e \<and> data ! f_begin = CHR '' '' then trim_begin data (f_begin + 1) e
      else f_begin)"
  by pat_completeness auto
termination
  by (relation "measure (\<lambda>(data, f_begin, e). e - f_begin)") auto

declare trim_begin.simps [simp del]

function trim_end :: "byte list \<Rightarrow> nat \<Rightarrow> nat \<Rightarrow> nat" where
  "trim_end data f_end nb =
     (if f_end > nb \<and> data ! (f_end - 1) = CHR '' '' then trim_end data (f_end - 1) nb
      else f_end)"
  by pat_completeness auto
termination
  by (relation "measure (\<lambda>(data, f_end, nb). f_end)") auto

declare trim_end.simps [simp del]

text \<open>
  The \<^verbatim>\<open>codespan\<close> callback gets the text of the span, or a NULL text (\<open>None\<close>) when
  nothing is left of it; the recognizer is installed only when the callback is there.
\<close>

definition char_codespan ::
  "(sd_buf \<Rightarrow> byte list option \<Rightarrow> 'o \<Rightarrow> int \<times> sd_buf \<times> 'o)
   \<Rightarrow> sd_buf \<Rightarrow> 'o \<Rightarrow> byte list \<Rightarrow> nat \<times> sd_buf \<times> 'o" where
  "char_codespan cb_codespan ob opaque data =
     (let nb = count_ticks data 0 in
      case find_close data nb nb 0 of
        (e, i) \<Rightarrow>
          if i < nb \<and> e \<ge> length data then (0, ob, opaque)
          else
            let f_begin = trim_begin data nb e;
                f_end = trim_end data (e - nb) nb
            in case cb_codespan ob
                      (if f_begin < f_end then Some (take (f_end - f_begin) (drop f_begin data))
                       else None)
                      opaque of
                 (r, ob', opaque') \<Rightarrow> (if r = 0 then 0 else e, ob', opaque'))"

text \<open>
  In the words of the specification: a run of exactly \<open>n\<close> backticks at position \<open>p\<close> (no
  backtick right before it nor right behind it), and a list trimmed of one leading and one
  trailing space.
\<close>

definition exact_run :: "byte list \<Rightarrow> nat \<Rightarrow> nat \<Rightarrow> bool" where
  "exact_run data p n =
     (p + n \<le> length data \<and> (\<forall>k < n. data ! (p + k) = CHR ''`'')
      \<and> (p = 0 \<or> data ! (p - 1) \<noteq> CHR ''`'')
      \<and> (p + n = length data \<or> data ! (p + n) \<noteq> CHR ''`''))"

definition trim_one :: "byte list \<Rightarrow> byte list" where
  "trim_one xs =
     (let ys = (if xs \<noteq> [] \<and> hd xs = CHR '' '' then tl xs else xs)
      in if ys \<noteq> [] \<and> last ys = CHR '' '' then butlast ys else ys)"

text \<open>
  What the source does instead: \<open>n\<close> backticks in a row at position \<open>p\<close>, whatever is
  around them, and a list without its leading and trailing spaces.
\<close>

definition tick_run :: "byte list \<Rightarrow> nat \<Rightarrow> nat \<Rightarrow> bool" where
  "tick_run data p n = (p + n \<le> length data \<and> (\<forall>k < n. data ! (p + k) = CHR ''`''))"

definition strip_spaces :: "byte list \<Rightarrow> byte list" where
  "strip_spaces xs =
     rev (dropWhile (\<lambda>b. b = CHR '' '') (rev (dropWhile (\<lambda>b. b = CHR '' '') xs)))"

section \<open>Tab expansion (markdown.c)\<close>

text \<open>
  The inner loop of \<^verbatim>\<open>expand_tabs\<close>,
  \<^verbatim>\<open>while (i < size && line[i] != '\t') { i++; tab++; }\<close>.
\<close>

function skip_plain :: "byte list \<Rightarrow> nat \<Rightarrow> nat \<Rightarrow> nat \<times> nat" where
  "skip_plain line i tab =
     (if i < length line \<and> line ! i \<noteq> CHR 0x09 then skip_plain line (i + 1) (tab + 1)
      else (i, tab))"
  by pat_completeness auto
termination
  by (relation "measure (\<lambda>(line, i, tab). length line - i)") auto

declare skip_plain.simps [simp del]

text \<open>\<^verbatim>\<open>do { sd_bufputc(ob, ' '); tab++; } while (tab % 4);\<close>\<close>

function tab_spaces :: "(nat \<Rightarrow> bool) \<Rightarrow> sd_buf \<Rightarrow> nat \<Rightarrow> error + (sd_buf \<times> nat)" where
  "tab_spaces realloc_ok ob tab =
     (case sd_bufputc realloc_ok ob (CHR '' '') of
        Inl err \<Rightarrow> Inl err
      | Inr ob' \<Rightarrow>
          if (tab + 1) mod 4 \<noteq> 0 then tab_spaces realloc_ok ob' (tab + 1)
          else Inr (ob', tab + 1))"
  by pat_completeness auto
termination
  by (relation "measure (\<lambda>(realloc_ok, ob, tab). 3 - tab mod 4)") (auto, presburger)

declare tab_spaces.simps [simp del]

lemma skip_plain_ge: "i \<le> fst (skip_plain line i tab)"
proof (induction line i tab rule: skip_plain.induct)
  case (1 line i tab)
  then show ?case by (subst skip_plain.simps) auto
qed

text \<open>The outer loop of \<^verbatim>\<open>expand_tabs\<close>, with its \<^verbatim>\<open>break\<close>.\<close>

function expand_loop ::
  "(nat \<Rightarrow> bool) \<Rightarrow> sd_buf \<Rightarrow> byte list \<Rightarrow> nat \<Rightarrow> nat \<Rightarrow> error + sd_buf" where
  "expand_loop realloc_ok ob line i tab =
     (if i < length line then
        (case skip_plain line i tab of
           (i1, tab1) \<Rightarrow>
             (case (if i1 > i then sd_bufput realloc_ok ob (take (i1 - i) (drop i line))
                    else Inr ob) of
                Inl err \<Rightarrow> Inl err
              | Inr ob1 \<Rightarrow>
                  if i1 \<ge> length line then Inr ob1
                  else
                    (case tab_spaces realloc_ok ob1 tab1 of
                       Inl err \<Rightarrow> Inl err
                     | Inr (ob2, tab2) \<Rightarrow> expand_loop realloc_ok ob2 line (i1 + 1) tab2)))
      else Inr ob)"
  by pat_completeness auto
termination
proof (relation "measure (\<lambda>(realloc_ok, ob, line, i, tab). length line - i)")
  show "wf (measure (\<lambda>(realloc_ok, ob, line, i, tab). length line - i))" by simp
next
  fix realloc_ok :: "nat \<Rightarrow> bool" and ob :: sd_buf and line :: "byte list" and i tab :: nat
    and x :: "nat \<times> nat" and i1 tab1 :: nat and ob1 :: sd_buf and y :: "sd_buf \<times> nat"
    and ob2 :: sd_buf and tab2 :: nat
  assume "i < length line" and "(i1, tab1) = skip_plain line i tab" and "\<not> length line \<le> i1"
  then have "i \<le> i1" using skip_plain_ge [of i line tab] by (metis fst_conv)
  with \<open>\<not> length line \<le> i1\<close>
  show "((realloc_ok, ob2, line, i1 + 1, tab2), (realloc_ok, ob, line, i, tab))
        \<in> measure (\<lambda>(realloc_ok, ob, line, i, tab). length line - i)"
    by simp
qed

declare expand_loop.simps [simp del]

definition expand_tabs :: "(nat \<Rightarrow> bool) \<Rightarrow> sd_buf \<Rightarrow> byte list \<Rightarrow> error + sd_buf" where
  "expand_tabs realloc_ok ob line = expand_loop realloc_ok ob line 0 0"

text \<open>
  The tab expansion law in the words of the specification: with \<open>c\<close> the column, the number of
  bytes produced for the line so far, a tab becomes \<open>4 - c mod 4\<close> spaces and any other byte
  is copied.
\<close>

fun tab_law :: "nat \<Rightarrow> byte list \<Rightarrow> byte list" where
  "tab_law c [] = []"
| "tab_law c (b # bs) =
     (if b = CHR 0x09 then replicate (4 - c mod 4) (CHR '' '') @ tab_law (c + (4 - c mod 4)) bs
      else b # tab_law (c + 1) bs)"

text \<open>
  The buffer takes every append up to a size of \<open>n\<close>: it is growable, and either its
  capacity reaches \<open>n\<close> already, or \<open>n\<close> is within the 16 MiB cap and the allocator grants
  what it is asked.
\<close>

definition takes_upto :: "(nat \<Rightarrow> bool) \<Rightarrow> sd_buf \<Rightarrow> nat \<Rightarrow> bool" where
  "takes_upto realloc_ok ob n =
     (unit ob \<noteq> 0 \<and>
      (n \<le> asize ob \<or> (n \<le> BUFFER_MAX_ALLOC_SIZE \<and> (\<forall>m. realloc_ok m))))"

section \<open>Properties of the buffer\<close>

lemma sd_bufgrow_refused:
  "unit buf \<noteq> 0 \<Longrightarrow> BUFFER_MAX_ALLOC_SIZE < neosz \<Longrightarrow>
   sd_bufgrow realloc_ok buf neosz = Inr (BUF_ENOMEM, buf)"
  by (simp add: sd_bufgrow_def)

text \<open>
  Claim C8, as amended. For a growable buffer (nonzero unit), \<^verbatim>\<open>sd_bufgrow\<close> answers
  \<^verbatim>\<open>BUF_ENOMEM\<close> and leaves the buffer as it is whenever the requested capacity is
  above 16 MiB, whatever the allocator would do. An append (\<^verbatim>\<open>sd_bufput\<close>,
  \<^verbatim>\<open>sd_bufputc\<close>) whose required capacity is above 16 MiB \<^emph>\<open>and above the capacity
  already allocated\<close> leaves size, capacity and contents as they are. The second condition
  cannot be dropped: an append asks \<^verbatim>\<open>sd_bufgrow\<close> only when the allocated capacity
  does not suffice.
\<close>

theorem sd_bufgrow_cap_append_noop:
  assumes "unit buf \<noteq> 0"
  shows "(BUFFER_MAX_ALLOC_SIZE < neosz \<longrightarrow>
            sd_bufgrow realloc_ok buf neosz = Inr (BUF_ENOMEM, buf))
       \<and> (BUFFER_MAX_ALLOC_SIZE < bufsize buf + length bytes
            \<and> asize buf < bufsize buf + length bytes \<longrightarrow>
            sd_bufput realloc_ok buf bytes = Inr buf)
       \<and> (BUFFER_MAX_ALLOC_SIZE < bufsize buf + 1 \<and> asize buf < bufsize buf + 1 \<longrightarrow>
            sd_bufputc realloc_ok buf c = Inr buf)"
proof (intro conjI impI)
  assume "BUFFER_MAX_ALLOC_SIZE < neosz"
  with assms show "sd_bufgrow realloc_ok buf neosz = Inr (BUF_ENOMEM, buf)"
    by (rule sd_bufgrow_refused)
next
  assume a: "BUFFER_MAX_ALLOC_SIZE < bufsize buf + length bytes
    \<and> asize buf < bufsize buf + length bytes"
  then have "sd_bufgrow realloc_ok buf (bufsize buf + length bytes) = Inr (BUF_ENOMEM, buf)"
    using assms by (simp add: sd_bufgrow_refused)
  with a assms show "sd_bufput realloc_ok buf bytes = Inr buf"
    by (simp add: sd_bufput_def BUF_ENOMEM_def)
next
  assume a: "BUFFER_MAX_ALLOC_SIZE < bufsize buf + 1 \<and> asize buf < bufsize buf + 1"
  then have "sd_bufgrow realloc_ok buf (bufsize buf + 1) = Inr (BUF_ENOMEM, buf)"
    using assms by (simp add: sd_bufgrow_refused)
  with a assms show "sd_bufputc realloc_ok buf c = Inr buf"
    by (simp add: sd_bufputc_def BUF_ENOMEM_def)
qed

text \<open>
  The theorem at a full buffer of 16 MiB with the unit of the parser's own staging buffer:
  growing to one byte more is refused, and so are both appends.
\<close>

theorem sd_bufgrow_cap_append_noop_witness:
  "sd_bufgrow (\<lambda>n. True)
      \<lparr>buf_data = replicate 16777216 (CHR ''a''), asize = 16777216, unit = 64\<rparr> 16777217
     = Inr (BUF_ENOMEM, \<lparr>buf_data = replicate 16777216 (CHR ''a''), asize = 16777216, unit = 64\<rparr>)
   \<and> sd_bufput (\<lambda>n. True)
      \<lparr>buf_data = replicate 16777216 (CHR ''a''), asize = 16777216, unit = 64\<rparr> ''b''
     = Inr \<lparr>buf_data = replicate 16777216 (CHR ''a''), asize = 16777216, unit = 64\<rparr>
   \<and> sd_bufputc (\<lambda>n. True)
      \<lparr>buf_data = replicate 16777216 (CHR ''a''), asize = 16777216, unit = 64\<rparr> (CHR ''b'')
     = Inr \<lparr>buf_data = replicate 16777216 (CHR ''a''), asize = 16777216, unit = 64\<rparr>"
  using sd_bufgrow_cap_append_noop
    [of "\<lparr>buf_data = replicate 16777216 (CHR ''a''), asize = 16777216, unit = 64\<rparr>"
        16777217 "\<lambda>n. True" "''b''" "CHR ''b''"]
  by (simp add: BUFFER_MAX_ALLOC_SIZE_def bufsize_def)

text \<open>
  Claim C8 as it is written fails. \<^verbatim>\<open>sd_bufnew(33554432)\<close> followed by one
  \<^verbatim>\<open>sd_bufputc\<close> gives a buffer of size 1 whose capacity is one unit, 32 MiB: the
  request was for 1 byte, and the capacity grows by whole units. Appending 16 MiB to it needs a
  capacity of 16 MiB + 1, above the cap, and is carried out all the same, because the capacity
  at hand suffices and \<^verbatim>\<open>sd_bufgrow\<close> is never asked.
\<close>

theorem sd_bufput_above_cap_counterexample:
  "sd_bufnew True 33554432 = Some \<lparr>buf_data = [], asize = 0, unit = 33554432\<rparr>
   \<and> sd_bufputc (\<lambda>n. True) \<lparr>buf_data = [], asize = 0, unit = 33554432\<rparr> (CHR ''a'')
     = Inr \<lparr>buf_data = ''a'', asize = 33554432, unit = 33554432\<rparr>
   \<and> BUFFER_MAX_ALLOC_SIZE
     < bufsize \<lparr>buf_data = ''a'', asize = 33554432, unit = 33554432\<rparr>
       + length (replicate 16777216 (CHR ''x''))
   \<and> sd_bufput (\<lambda>n. True) \<lparr>buf_data = ''a'', asize = 33554432, unit = 33554432\<rparr>
       (replicate 16777216 (CHR ''x''))
     = Inr \<lparr>buf_data = ''a'' @ replicate 16777216 (CHR ''x''), asize = 33554432, unit = 33554432\<rparr>
   \<and> sd_bufput (\<lambda>n. True) \<lparr>buf_data = ''a'', asize = 33554432, unit = 33554432\<rparr>
       (replicate 16777216 (CHR ''x''))
     \<noteq> Inr \<lparr>buf_data = ''a'', asize = 33554432, unit = 33554432\<rparr>"
  by (simp add: sd_bufnew_def sd_bufputc_def sd_bufput_def sd_bufgrow_def bufsize_def
      BUFFER_MAX_ALLOC_SIZE_def BUF_OK_def BUF_ENOMEM_def grow_asize.simps)

section \<open>The safe-link check\<close>

lemma of_char_tolower:
  "(of_char (tolower c) :: nat) = (if isupper c then of_char c + 32 else of_char c)"
  by (simp add: tolower_def isupper_def)

lemma tolower_not_NUL: "c \<noteq> CHR 0x00 \<Longrightarrow> tolower c \<noteq> CHR 0x00"
proof
  assume c: "c \<noteq> CHR 0x00" and "tolower c = CHR 0x00"
  then have "(of_char (tolower c) :: nat) = 0" by simp
  then have "(of_char c :: nat) = of_char (CHR 0x00)"
    by (simp add: of_char_tolower split: if_splits)
  then have "c = CHR 0x00" by (rule of_char_eqI)
  with c show False by simp
qed

lemma tolower_NUL: "tolower (CHR 0x00) = CHR 0x00"
  by (simp add: tolower_def isupper_def)

lemma strncasecmp_eq:
  "length p \<le> length link \<Longrightarrow> CHR 0x00 \<notin> set p \<Longrightarrow>
   (strncasecmp link p (length p) = 0) = (map tolower (take (length p) link) = map tolower p)"
proof (induction p arbitrary: link)
  case Nil
  then show ?case by simp
next
  case (Cons b p)
  then obtain a link' where l: "link = a # link'" by (cases link) auto
  show ?case
  proof (cases "tolower a = tolower b")
    case False
    then show ?thesis using l by (simp add: Let_def)
  next
    case True
    have "b \<noteq> CHR 0x00" using Cons.prems by auto
    then have "a \<noteq> CHR 0x00" using True tolower_not_NUL[of b] tolower_NUL by metis
    then show ?thesis using True l Cons.IH[of link'] Cons.prems by (simp add: Let_def)
  qed
qed

lemma issafe_unfold:
  "sd_autolink_issafe link \<noteq> 0 \<longleftrightarrow>
     (\<exists>p \<in> set valid_uris. length link > length p \<and> strncasecmp link p (length p) = 0
        \<and> isalnum (link ! length p))"
proof -
  have step: "\<And>i. issafe_loop link i =
     (if i < 5 then
        (if length link > length (valid_uris ! i)
            \<and> strncasecmp link (valid_uris ! i) (length (valid_uris ! i)) = 0
            \<and> isalnum (link ! length (valid_uris ! i))
         then 1
         else issafe_loop link (Suc i))
      else 0)"
    by (subst issafe_loop.simps) (simp add: valid_uris_count_def Let_def)
  have nth: "valid_uris ! 0 = ''/''" "valid_uris ! Suc 0 = ''http://''"
    "valid_uris ! Suc (Suc 0) = ''https://''" "valid_uris ! Suc (Suc (Suc 0)) = ''ftp://''"
    "valid_uris ! Suc (Suc (Suc (Suc 0))) = ''mailto:''"
    by (simp_all add: valid_uris_def)
  have five: "issafe_loop link (Suc (Suc (Suc (Suc (Suc 0))))) = 0"
    by (subst step) simp
  have set: "set valid_uris = {''/'', ''http://'', ''https://'', ''ftp://'', ''mailto:''}"
    by (simp add: valid_uris_def)
  show ?thesis
    unfolding sd_autolink_issafe_def set
    apply (subst step, subst step, subst step, subst step, subst step)
    apply (simp only: five nth)
    apply (simp del: strncasecmp.simps)
    done
qed

text \<open>
  Claim C4. \<^verbatim>\<open>sd_autolink_issafe(link, n)\<close> is nonzero if and only if \<open>link\<close> begins,
  case-insensitively, with one of the five prefixes, and the byte right behind that prefix
  lies within the \<open>n\<close> bytes and is alphanumeric.
\<close>

theorem sd_autolink_issafe_iff:
  "sd_autolink_issafe link \<noteq> 0 \<longleftrightarrow>
     (\<exists>p \<in> {''/'', ''http://'', ''https://'', ''ftp://'', ''mailto:''}.
        ci_prefix p link \<and> length p < length link \<and> isalnum (link ! length p))"
proof -
  have "\<And>p. p \<in> set valid_uris \<Longrightarrow> length p < length link \<Longrightarrow>
      (strncasecmp link p (length p) = 0) = ci_prefix p link"
    unfolding ci_prefix_def by (subst strncasecmp_eq) (auto simp: valid_uris_def)
  then have "sd_autolink_issafe link \<noteq> 0 \<longleftrightarrow>
     (\<exists>p \<in> set valid_uris. ci_prefix p link \<and> length p < length link
        \<and> isalnum (link ! length p))"
    unfolding issafe_unfold by blast
  then show ?thesis by (simp add: valid_uris_def)
qed

text \<open>The theorem in both directions: an upper-case scheme is safe, a bare scheme is not.\<close>

theorem sd_autolink_issafe_iff_witness:
  "sd_autolink_issafe ''HTTP://a'' \<noteq> 0 \<and> \<not> sd_autolink_issafe ''http://'' \<noteq> 0"
proof
  have "ci_prefix ''http://'' ''HTTP://a''" by code_simp
  moreover have "isalnum (''HTTP://a'' ! length ''http://'')" by code_simp
  ultimately show "sd_autolink_issafe ''HTTP://a'' \<noteq> 0"
    by (subst sd_autolink_issafe_iff) simp
next
  show "\<not> sd_autolink_issafe ''http://'' \<noteq> 0"
    by (subst sd_autolink_issafe_iff)
      (simp add: ci_prefix_def tolower_def isupper_def isalnum_def isalpha_def islower_def
        isdigit_def)
qed

section \<open>The reference table: fingerprints, insertion and lookup\<close>

lemma hash_step_comm:
  "(c :: 32 word) + p + q - h = p + q - h + c"
  by simp

lemma hash_loop_foldl:
  "i \<le> length xs \<Longrightarrow>
   hash_loop xs i h =
     foldl (\<lambda>hash b. push_bit 6 hash + push_bit 16 hash - hash + of_char (tolower b)) h (drop i xs)"
proof (induction xs i h rule: hash_loop.induct)
  case (1 link_ref i hash)
  show ?case
  proof (cases "i < length link_ref")
    case True
    then have d: "drop i link_ref = link_ref ! i # drop (Suc i) link_ref"
      by (simp add: Cons_nth_drop_Suc)
    have "hash_loop link_ref i hash = hash_loop link_ref (i + 1)
          (of_char (tolower (link_ref ! i)) + push_bit 6 hash + push_bit 16 hash - hash)"
      using True by (subst hash_loop.simps) simp
    also have "\<dots> = foldl (\<lambda>hash b. push_bit 6 hash + push_bit 16 hash - hash + of_char (tolower b))
          (of_char (tolower (link_ref ! i)) + push_bit 6 hash + push_bit 16 hash - hash)
          (drop (i + 1) link_ref)"
      using True by (intro "1.IH") simp_all
    finally show ?thesis
      by (simp only: d foldl_Cons hash_step_comm Suc_eq_plus1)
  next
    case False
    then show ?thesis using 1 by (subst hash_loop.simps) simp
  qed
qed

lemma hash_fold:
  "hash_link_ref name =
     foldl (\<lambda>hash b. push_bit 6 hash + push_bit 16 hash - hash + of_char (tolower b)) 0 name"
  by (simp add: hash_link_ref_def hash_loop_foldl)

lemma find_chain_Some: "find_chain c h = Some r \<Longrightarrow> r \<in> set c \<and> ref_id r = h"
  by (induction c) (auto split: if_splits)

lemma find_chain_None: "(find_chain c h = None) = (\<forall>r \<in> set c. ref_id r \<noteq> h)"
  by (induction c) auto

lemma find_chain_iff: "(find_chain c h \<noteq> None) = (\<exists>r \<in> set c. ref_id r = h)"
  by (simp add: find_chain_None)

text \<open>
  Claim C5. The fingerprint is the left fold of
  \<^verbatim>\<open>hash = (hash << 6) + (hash << 16) - hash + lower(b)\<close> over the bytes of the label,
  from 0, in 32-bit arithmetic. An insertion whose \<^verbatim>\<open>calloc\<close> succeeds puts the new
  record at the head of chain \<open>hash mod 8\<close> and leaves the other chains alone. A lookup
  finds a record if and only if that chain holds one with the same fingerprint, the record it
  returns is one of them, and the label takes part through its fingerprint only: two labels
  with one fingerprint get the same answer.
\<close>

theorem ref_fingerprint_insert_lookup:
  assumes len: "length references = REF_TABLE_SIZE"
  shows "hash_link_ref name =
           foldl (\<lambda>hash b. push_bit 6 hash + push_bit 16 hash - hash + of_char (tolower b)) 0 name
       \<and> (\<exists>references'. add_link_ref True references name
              = (Some (unat (hash_link_ref name) mod 8), references')
            \<and> length references' = REF_TABLE_SIZE
            \<and> references' ! (unat (hash_link_ref name) mod 8)
                = \<lparr>ref_id = hash_link_ref name, ref_link = None, ref_title = None\<rparr>
                  # references ! (unat (hash_link_ref name) mod 8)
            \<and> (\<forall>b < 8. b \<noteq> unat (hash_link_ref name) mod 8 \<longrightarrow> references' ! b = references ! b))
       \<and> ((find_link_ref references name \<noteq> None)
            = (\<exists>r \<in> set (references ! (unat (hash_link_ref name) mod 8)).
                 ref_id r = hash_link_ref name))
       \<and> (\<forall>r. find_link_ref references name = Some r \<longrightarrow>
              r \<in> set (references ! (unat (hash_link_ref name) mod 8))
              \<and> ref_id r = hash_link_ref name)
       \<and> (\<forall>name'. hash_link_ref name' = hash_link_ref name \<longrightarrow>
              find_link_ref references name' = find_link_ref references name)"
proof (intro conjI)
  show "hash_link_ref name =
     foldl (\<lambda>hash b. push_bit 6 hash + push_bit 16 hash - hash + of_char (tolower b)) 0 name"
    by (rule hash_fold)
next
  have "unat (hash_link_ref name) mod 8 < length references"
    using len by (simp add: REF_TABLE_SIZE_def)
  then show "\<exists>references'. add_link_ref True references name
              = (Some (unat (hash_link_ref name) mod 8), references')
            \<and> length references' = REF_TABLE_SIZE
            \<and> references' ! (unat (hash_link_ref name) mod 8)
                = \<lparr>ref_id = hash_link_ref name, ref_link = None, ref_title = None\<rparr>
                  # references ! (unat (hash_link_ref name) mod 8)
            \<and> (\<forall>b < 8. b \<noteq> unat (hash_link_ref name) mod 8 \<longrightarrow> references' ! b = references ! b)"
    using len by (simp add: add_link_ref_def Let_def REF_TABLE_SIZE_def)
next
  show "(find_link_ref references name \<noteq> None)
            = (\<exists>r \<in> set (references ! (unat (hash_link_ref name) mod 8)).
                 ref_id r = hash_link_ref name)"
    by (simp add: find_link_ref_def Let_def REF_TABLE_SIZE_def find_chain_None)
next
  show "\<forall>r. find_link_ref references name = Some r \<longrightarrow>
              r \<in> set (references ! (unat (hash_link_ref name) mod 8))
              \<and> ref_id r = hash_link_ref name"
    using find_chain_Some by (simp add: find_link_ref_def Let_def REF_TABLE_SIZE_def)
next
  show "\<forall>name'. hash_link_ref name' = hash_link_ref name \<longrightarrow>
              find_link_ref references name' = find_link_ref references name"
    by (simp add: find_link_ref_def)
qed


lemma length_add_link_ref:
  "length (snd (add_link_ref ok references name)) = length references"
  by (simp add: add_link_ref_def Let_def)

lemma length_ref_assign: "length (ref_assign references b l t) = length references"
  by (simp add: ref_assign_def split: list.splits)

lemma find_after_insert:
  assumes len: "length references = REF_TABLE_SIZE"
    and add: "add_link_ref True references n = (Some b, references')"
  shows "find_link_ref (ref_assign references' b l t) name =
     (if hash_link_ref n = hash_link_ref name
      then Some \<lparr>ref_id = hash_link_ref name, ref_link = l, ref_title = t\<rparr>
      else find_link_ref references name)"
proof -
  let ?b = "unat (hash_link_ref n) mod REF_TABLE_SIZE"
  let ?new = "\<lparr>ref_id = hash_link_ref n, ref_link = None, ref_title = None\<rparr>"
  have b: "b = ?b" and r': "references' = references[?b := ?new # references ! ?b]"
    using add by (auto simp: add_link_ref_def Let_def)
  have lt: "?b < length references"
    using len by (simp add: REF_TABLE_SIZE_def)
  have upd: "ref_assign references' b l t
      = references[?b := \<lparr>ref_id = hash_link_ref n, ref_link = l, ref_title = t\<rparr> # references ! ?b]"
    using lt by (simp add: ref_assign_def b r')
  show ?thesis
  proof (cases "hash_link_ref n = hash_link_ref name")
    case True
    then show ?thesis using lt by (simp add: upd find_link_ref_def Let_def)
  next
    case False
    show ?thesis
    proof (cases "unat (hash_link_ref name) mod REF_TABLE_SIZE = ?b")
      case True
      then show ?thesis using lt False by (simp add: upd find_link_ref_def Let_def)
    next
      case f: False
      then show ?thesis using lt False by (simp add: upd find_link_ref_def Let_def)
    qed
  qed
qed

lemma find_store_refs:
  "length references = REF_TABLE_SIZE \<Longrightarrow>
   find_link_ref (store_refs defs references) name =
     (if matching_defs defs name = [] then find_link_ref references name
      else case last (matching_defs defs name) of (calloc_ok, n, l, t) \<Rightarrow>
        Some \<lparr>ref_id = hash_link_ref name, ref_link = l, ref_title = t\<rparr>)"
proof (induction defs arbitrary: references)
  case Nil
  then show ?case by (simp add: matching_defs_def)
next
  case (Cons d defs)
  obtain ok n l t where d: "d = (ok, n, l, t)" by (cases d) auto
  show ?case
  proof (cases ok)
    case False
    then show ?thesis using Cons d by (simp add: add_link_ref_def matching_defs_def)
  next
    case True
    obtain b references' where add: "add_link_ref True references n = (Some b, references')"
      by (simp add: add_link_ref_def Let_def)
    have len': "length (ref_assign references' b l t) = REF_TABLE_SIZE"
      using length_add_link_ref[of True references n] add Cons.prems
      by (simp add: length_ref_assign)
    have st: "store_refs (d # defs) references = store_refs defs (ref_assign references' b l t)"
      using True d add by simp
    show ?thesis
      unfolding st Cons.IH[OF len'] find_after_insert[OF Cons.prems add]
      using True d by (auto simp: matching_defs_def)
  qed
qed

text \<open>
  The theorem on a table whose chain 1 holds the record of the label \<open>Ab\<close>: the
  fingerprint, and a lookup under another spelling.
\<close>

theorem ref_fingerprint_insert_lookup_witness:
  "hash_link_ref ''aB''
     = foldl (\<lambda>hash b. push_bit 6 hash + push_bit 16 hash - hash + of_char (tolower b)) 0 ''aB''
   \<and> find_link_ref
        [[], [\<lparr>ref_id = 6363201, ref_link = None, ref_title = None\<rparr>], [], [], [], [], [], []]
        ''aB'' \<noteq> None"
proof -
  let ?tbl = "[[], [\<lparr>ref_id = 6363201, ref_link = None, ref_title = None\<rparr>],
    [], [], [], [], [], []] :: link_ref list list"
  have h: "hash_link_ref ''aB'' = 6363201" by code_simp
  have m: "unat (6363201 :: 32 word) mod 8 = Suc 0" by simp
  have len: "length ?tbl = REF_TABLE_SIZE" by (simp add: REF_TABLE_SIZE_def)
  note t = ref_fingerprint_insert_lookup [of ?tbl "''aB''", OF len]
  have "\<exists>r \<in> set (?tbl ! (unat (hash_link_ref ''aB'') mod 8)). ref_id r = hash_link_ref ''aB''"
    unfolding h m by simp
  then have "find_link_ref ?tbl ''aB'' \<noteq> None"
    by (rule iffD2 [OF t [THEN conjunct2, THEN conjunct2, THEN conjunct1]])
  with t [THEN conjunct1] show ?thesis by (rule conjI)
qed

text \<open>
  Claim C10. After the insertions of the first pass, whatever they are, a lookup returns the
  record of the last definition stored whose label has the fingerprint looked up (with the
  buffers \<^verbatim>\<open>is_ref\<close> gave it), and nothing when there is none. So of two definitions
  with equal fingerprints the later one answers every lookup.
\<close>

theorem find_link_ref_most_recent:
  "find_link_ref (store_refs defs empty_refs) name =
     (if matching_defs defs name = [] then None
      else case last (matching_defs defs name) of (calloc_ok, n, l, t) \<Rightarrow>
        Some \<lparr>ref_id = hash_link_ref name, ref_link = l, ref_title = t\<rparr>)"
proof -
  have "find_link_ref empty_refs name = None"
    by (simp add: find_link_ref_def empty_refs_def REF_TABLE_SIZE_def Let_def)
  then show ?thesis
    by (simp add: find_store_refs empty_refs_def)
qed

text \<open>The same label defined twice, looked up in another case: the second definition.\<close>

theorem find_link_ref_most_recent_witness:
  "find_link_ref
     (store_refs
        [(True, ''Foo'', Some \<lparr>buf_data = ''http://a'', asize = 8, unit = 8\<rparr>, None),
         (True, ''foo'', Some \<lparr>buf_data = ''http://b'', asize = 8, unit = 8\<rparr>, None)]
        empty_refs) ''FOO''
   = Some \<lparr>ref_id = hash_link_ref ''FOO'',
        ref_link = Some \<lparr>buf_data = ''http://b'', asize = 8, unit = 8\<rparr>, ref_title = None\<rparr>"
proof -
  have h: "hash_link_ref ''Foo'' = hash_link_ref ''FOO''"
    "hash_link_ref ''foo'' = hash_link_ref ''FOO''"
    by code_simp+
  show ?thesis
    by (subst find_link_ref_most_recent) (simp add: matching_defs_def h)
qed

section \<open>The entity recognizer\<close>

text \<open>
  Claim C3 asks for one or more alphanumeric bytes between the ampersand (with its optional
  \<open>#\<close>) and the semicolon, as does the comment above \<^verbatim>\<open>char_entity\<close>
  (\<^verbatim>\<open>&#?[A-Za-z0-9]+;\<close>). The loop of the source accepts none: on the two bytes \<open>&;\<close>
  the recognizer consumes both and hands them to the \<^verbatim>\<open>entity\<close> callback (here a callback
  that records its argument in the renderer's state), or copies them to the output when there
  is no callback. The same happens on \<open>&#;\<close>.
\<close>

theorem char_entity_empty_name:
  "char_entity (\<lambda>n. True) (Some (\<lambda>ob text opaque. (ob, text # opaque)))
      \<lparr>buf_data = [], asize = 0, unit = 64\<rparr> [] ''&;''
     = Inr (2, \<lparr>buf_data = [], asize = 0, unit = 64\<rparr>, [''&;''])
   \<and> char_entity (\<lambda>n. True) None \<lparr>buf_data = [], asize = 0, unit = 64\<rparr> () ''&;''
     = Inr (2, \<lparr>buf_data = ''&;'', asize = 64, unit = 64\<rparr>, ())
   \<and> char_entity (\<lambda>n. True) (Some (\<lambda>ob text opaque. (ob, text # opaque)))
      \<lparr>buf_data = [], asize = 0, unit = 64\<rparr> [] ''&#; x''
     = Inr (3, \<lparr>buf_data = [], asize = 0, unit = 64\<rparr>, [''&#;''])"
  by (simp add: char_entity_def entity_scan.simps isalnum_def isalpha_def isupper_def
      islower_def isdigit_def sd_bufput_def sd_bufgrow_def bufsize_def BUFFER_MAX_ALLOC_SIZE_def
      BUF_OK_def BUF_ENOMEM_def grow_asize.simps)

section \<open>The tab expansion law\<close>

lemma sd_bufput_takes:
  assumes "takes_upto realloc_ok ob n" and "bufsize ob + length bytes \<le> n"
  shows "\<exists>ob'. sd_bufput realloc_ok ob bytes = Inr ob'
      \<and> buf_data ob' = buf_data ob @ bytes \<and> unit ob' = unit ob
      \<and> takes_upto realloc_ok ob' n"
proof (cases "bufsize ob + length bytes > asize ob")
  case False
  then show ?thesis using assms by (auto simp: sd_bufput_def takes_upto_def)
next
  case True
  then have "n \<le> BUFFER_MAX_ALLOC_SIZE \<and> (\<forall>m. realloc_ok m)"
    using assms by (auto simp: takes_upto_def)
  then show ?thesis
    using assms True
    by (auto simp: sd_bufput_def sd_bufgrow_def takes_upto_def Let_def BUF_OK_def)
qed

lemma sd_bufputc_takes:
  assumes "takes_upto realloc_ok ob n" and "bufsize ob + 1 \<le> n"
  shows "\<exists>ob'. sd_bufputc realloc_ok ob c = Inr ob'
      \<and> buf_data ob' = buf_data ob @ [c] \<and> unit ob' = unit ob
      \<and> takes_upto realloc_ok ob' n"
proof (cases "bufsize ob + 1 > asize ob")
  case False
  then show ?thesis using assms by (auto simp: sd_bufputc_def takes_upto_def)
next
  case True
  then have "n \<le> BUFFER_MAX_ALLOC_SIZE \<and> (\<forall>m. realloc_ok m)"
    using assms by (auto simp: takes_upto_def)
  then show ?thesis
    using assms True
    by (auto simp: sd_bufputc_def sd_bufgrow_def takes_upto_def Let_def BUF_OK_def)
qed

lemma skip_plain_takeWhile:
  "i \<le> length line \<Longrightarrow>
   skip_plain line i tab =
     (i + length (takeWhile (\<lambda>b. b \<noteq> CHR 0x09) (drop i line)),
      tab + length (takeWhile (\<lambda>b. b \<noteq> CHR 0x09) (drop i line)))"
proof (induction line i tab rule: skip_plain.induct)
  case (1 line i tab)
  show ?case
  proof (cases "i < length line")
    case False
    then show ?thesis using 1 by (subst skip_plain.simps) simp
  next
    case True
    then have d: "drop i line = line ! i # drop (Suc i) line"
      by (simp add: Cons_nth_drop_Suc)
    show ?thesis
    proof (cases "line ! i = CHR 0x09")
      case t: True
      then show ?thesis using True by (subst skip_plain.simps) (simp add: d)
    next
      case f: False
      then show ?thesis using True 1 by (subst skip_plain.simps) (simp add: d)
    qed
  qed
qed

lemma tab_law_plain:
  "\<forall>b \<in> set xs. b \<noteq> CHR 0x09 \<Longrightarrow> tab_law c (xs @ ys) = xs @ tab_law (c + length xs) ys"
  by (induction xs arbitrary: c) auto

lemma tab_spaces_takes:
  "takes_upto realloc_ok ob n \<Longrightarrow> bufsize ob + (4 - tab mod 4) \<le> n \<Longrightarrow>
   \<exists>ob'. tab_spaces realloc_ok ob tab = Inr (ob', tab + (4 - tab mod 4))
      \<and> buf_data ob' = buf_data ob @ replicate (4 - tab mod 4) (CHR '' '')
      \<and> unit ob' = unit ob \<and> takes_upto realloc_ok ob' n"
proof (induction realloc_ok ob tab rule: tab_spaces.induct)
  case (1 realloc_ok ob tab)
  have "bufsize ob + 1 \<le> n" using "1.prems" by arith
  from sd_bufputc_takes [OF "1.prems"(1) this, of "CHR '' ''"]
  obtain ob1 where p: "sd_bufputc realloc_ok ob (CHR '' '') = Inr ob1"
    and d1: "buf_data ob1 = buf_data ob @ [CHR '' '']" and u1: "unit ob1 = unit ob"
    and t1: "takes_upto realloc_ok ob1 n"
    by blast
  show ?case
  proof (cases "(tab + 1) mod 4 \<noteq> 0")
    case False
    then have "4 - tab mod 4 = 1" by presburger
    then show ?thesis
      using False p d1 u1 t1 by (subst tab_spaces.simps) simp
  next
    case True
    then have m: "4 - tab mod 4 = Suc (4 - (tab + 1) mod 4)" by presburger
    have "bufsize ob1 + (4 - (tab + 1) mod 4) \<le> n"
      using "1.prems"(2) m d1 by (simp add: bufsize_def)
    from "1.IH" [OF p True t1 this]
    obtain ob' where r: "tab_spaces realloc_ok ob1 (tab + 1)
        = Inr (ob', tab + 1 + (4 - (tab + 1) mod 4))"
      and d': "buf_data ob' = buf_data ob1 @ replicate (4 - (tab + 1) mod 4) (CHR '' '')"
      and u': "unit ob' = unit ob1" and t': "takes_upto realloc_ok ob' n"
      by blast
    have "tab_spaces realloc_ok ob tab = Inr (ob', tab + (4 - tab mod 4))"
      using True p r m by (subst tab_spaces.simps) simp
    moreover have "buf_data ob' = buf_data ob @ replicate (4 - tab mod 4) (CHR '' '')"
      using d' d1 m by simp
    ultimately show ?thesis using u' u1 t' by simp
  qed
qed

lemma expand_loop_takes:
  "i \<le> length line \<Longrightarrow> takes_upto realloc_ok ob n \<Longrightarrow>
   bufsize ob + length (tab_law tab (drop i line)) \<le> n \<Longrightarrow>
   \<exists>ob'. expand_loop realloc_ok ob line i tab = Inr ob'
      \<and> buf_data ob' = buf_data ob @ tab_law tab (drop i line)
      \<and> unit ob' = unit ob \<and> takes_upto realloc_ok ob' n"
proof (induction realloc_ok ob line i tab rule: expand_loop.induct)
  case (1 realloc_ok ob line i tab)
  show ?case
  proof (cases "i < length line")
    case False
    then show ?thesis using "1.prems" by (subst expand_loop.simps) simp
  next
    case True
    define xs where "xs = takeWhile (\<lambda>b. b \<noteq> CHR 0x09) (drop i line)"
    define i1 where "i1 = i + length xs"
    define tab1 where "tab1 = tab + length xs"
    have sk: "skip_plain line i tab = (i1, tab1)"
      using True by (simp add: skip_plain_takeWhile xs_def i1_def tab1_def)
    have i1_le: "i1 \<le> length line"
      using length_takeWhile_le [of "\<lambda>b. b \<noteq> CHR 0x09" "drop i line"] True
      by (simp add: i1_def xs_def)
    have split: "drop i line = xs @ drop i1 line"
    proof -
      have "drop i line = xs @ dropWhile (\<lambda>b. b \<noteq> CHR 0x09) (drop i line)"
        by (simp add: xs_def)
      also have "dropWhile (\<lambda>b. b \<noteq> CHR 0x09) (drop i line) = drop (length xs) (drop i line)"
        unfolding xs_def by (rule dropWhile_eq_drop)
      finally show ?thesis by (simp add: i1_def add.commute)
    qed
    have tk: "take (i1 - i) (drop i line) = xs"
      unfolding i1_def xs_def
      by (simp only: add_diff_cancel_left' takeWhile_eq_take [symmetric])
    have plain: "\<forall>b \<in> set xs. b \<noteq> CHR 0x09"
      using set_takeWhileD [of _ "\<lambda>b. b \<noteq> CHR 0x09" "drop i line"] by (auto simp: xs_def)
    have law: "tab_law tab (drop i line) = xs @ tab_law tab1 (drop i1 line)"
      by (subst split) (simp add: tab_law_plain [OF plain] tab1_def)
    obtain ob1 where put: "(if i1 > i then sd_bufput realloc_ok ob (take (i1 - i) (drop i line))
          else Inr ob) = Inr ob1"
      and d1: "buf_data ob1 = buf_data ob @ xs" and u1: "unit ob1 = unit ob"
      and t1: "takes_upto realloc_ok ob1 n"
    proof (cases "i1 > i")
      case False
      then have "xs = []" by (simp add: i1_def)
      then show ?thesis using that [of ob] False "1.prems"(2) by simp
    next
      case True
      have "bufsize ob + length xs \<le> n" using "1.prems"(3) law by simp
      from sd_bufput_takes [OF "1.prems"(2) this] show ?thesis
        using that True tk by auto
    qed
    show ?thesis
    proof (cases "i1 \<ge> length line")
      case True
      then have "drop i1 line = []" by simp
      then have "buf_data ob1 = buf_data ob @ tab_law tab (drop i line)"
        using d1 law by simp
      moreover have "expand_loop realloc_ok ob line i tab = Inr ob1"
        using \<open>i < length line\<close> sk put True by (subst expand_loop.simps) simp
      ultimately show ?thesis using u1 t1 by simp
    next
      case False
      then have lt: "i1 < length line" by simp
      have "\<not> (line ! i1 \<noteq> CHR 0x09)"
      proof -
        have "drop i line ! length xs = line ! i1"
          using lt by (simp add: i1_def)
        moreover have "length xs < length (drop i line)"
          using lt by (simp add: i1_def)
        ultimately show ?thesis
          using nth_length_takeWhile [of "\<lambda>b. b \<noteq> CHR 0x09" "drop i line"]
          by (simp add: xs_def)
      qed
      then have tabc: "line ! i1 = CHR 0x09" by simp
      have d: "drop i1 line = CHR 0x09 # drop (i1 + 1) line"
        using lt tabc by (simp add: Cons_nth_drop_Suc [symmetric])
      have law2: "tab_law tab (drop i line)
          = xs @ replicate (4 - tab1 mod 4) (CHR '' '')
            @ tab_law (tab1 + (4 - tab1 mod 4)) (drop (i1 + 1) line)"
        by (simp add: law d)
      have "bufsize ob1 + (4 - tab1 mod 4) \<le> n"
        using "1.prems"(3) d1 by (simp add: law2 bufsize_def)
      from tab_spaces_takes [OF t1 this]
      obtain ob2 where sp: "tab_spaces realloc_ok ob1 tab1 = Inr (ob2, tab1 + (4 - tab1 mod 4))"
        and d2: "buf_data ob2 = buf_data ob1 @ replicate (4 - tab1 mod 4) (CHR '' '')"
        and u2: "unit ob2 = unit ob1" and t2: "takes_upto realloc_ok ob2 n"
        by blast
      have room: "bufsize ob2
          + length (tab_law (tab1 + (4 - tab1 mod 4)) (drop (i1 + 1) line)) \<le> n"
        using "1.prems"(3) d1 d2 by (simp add: law2 bufsize_def)
      have "i1 + 1 \<le> length line" using lt by simp
      from "1.IH" [OF \<open>i < length line\<close> sk [symmetric] put False sp refl this t2 room]
      obtain ob' where r: "expand_loop realloc_ok ob2 line (i1 + 1) (tab1 + (4 - tab1 mod 4))
          = Inr ob'"
        and d': "buf_data ob' = buf_data ob2
            @ tab_law (tab1 + (4 - tab1 mod 4)) (drop (i1 + 1) line)"
        and u': "unit ob' = unit ob2" and t': "takes_upto realloc_ok ob' n"
        by blast
      have "expand_loop realloc_ok ob line i tab = Inr ob'"
        using \<open>i < length line\<close> sk put False sp r by (subst expand_loop.simps) simp
      moreover have "buf_data ob' = buf_data ob @ tab_law tab (drop i line)"
        using d' d2 d1 law2 by simp
      ultimately show ?thesis using u' u2 u1 t' by simp
    qed
  qed
qed

text \<open>
  Claim C6, as amended. When the output buffer takes the appends (it is growable, and the
  expanded line fits its capacity or, the allocator granting, the 16 MiB cap),
  \<^verbatim>\<open>expand_tabs\<close> appends to it the line with every byte other than a tab copied in
  order and every tab at column \<open>c\<close> replaced by \<open>4 - c mod 4\<close> spaces, where the column
  counts the bytes appended for this line so far.
\<close>

theorem expand_tabs_law:
  assumes "takes_upto realloc_ok ob (bufsize ob + length (tab_law 0 line))"
  shows "\<exists>ob'. expand_tabs realloc_ok ob line = Inr ob'
      \<and> buf_data ob' = buf_data ob @ tab_law 0 line \<and> unit ob' = unit ob"
  using expand_loop_takes [of 0 line realloc_ok ob "bufsize ob + length (tab_law 0 line)" 0] assms
  by (auto simp: expand_tabs_def)

text \<open>
  The theorem on the line \<open>a<TAB>bcde<TAB><TAB>f\<close> and an empty buffer of unit 64: the tabs
  stand at columns 1, 8 and 12 and become 3, 4 and 4 spaces.
\<close>

theorem expand_tabs_law_witness:
  "takes_upto (\<lambda>n. True) \<lparr>buf_data = [], asize = 0, unit = 64\<rparr>
     (bufsize \<lparr>buf_data = [], asize = 0, unit = 64\<rparr>
      + length (tab_law 0 [CHR ''a'', CHR 0x09, CHR ''b'', CHR ''c'', CHR ''d'', CHR ''e'',
          CHR 0x09, CHR 0x09, CHR ''f'']))
   \<and> (\<exists>ob'. expand_tabs (\<lambda>n. True) \<lparr>buf_data = [], asize = 0, unit = 64\<rparr>
          [CHR ''a'', CHR 0x09, CHR ''b'', CHR ''c'', CHR ''d'', CHR ''e'',
           CHR 0x09, CHR 0x09, CHR ''f''] = Inr ob'
        \<and> buf_data ob' = ''a   bcde        f'')"
proof -
  have h: "takes_upto (\<lambda>n. True) \<lparr>buf_data = [], asize = 0, unit = 64\<rparr>
     (bufsize \<lparr>buf_data = [], asize = 0, unit = 64\<rparr>
      + length (tab_law 0 [CHR ''a'', CHR 0x09, CHR ''b'', CHR ''c'', CHR ''d'', CHR ''e'',
          CHR 0x09, CHR 0x09, CHR ''f'']))"
    by (simp add: takes_upto_def bufsize_def BUFFER_MAX_ALLOC_SIZE_def)
  have l: "tab_law 0 [CHR ''a'', CHR 0x09, CHR ''b'', CHR ''c'', CHR ''d'', CHR ''e'',
          CHR 0x09, CHR 0x09, CHR ''f''] = ''a   bcde        f''"
    by code_simp
  from expand_tabs_law [OF h] h l show ?thesis by auto
qed

lemma skip_plain_abc:
  "skip_plain [CHR ''a'', CHR ''b'', CHR ''c'', CHR 0x09, CHR ''d''] 0 0 = (3, 3)"
  by code_simp

lemma skip_plain_d:
  "skip_plain [CHR ''a'', CHR ''b'', CHR ''c'', CHR 0x09, CHR ''d''] 4 4 = (5, 5)"
  by code_simp

text \<open>
  Claim C6 as it is written, for every line whatever the buffer, fails. A buffer of unit 64
  holds 16777214 bytes in a block of 16 MiB, and the line is \<open>abc<TAB>d\<close>. The append of
  \<open>abc\<close> asks for more than the cap and is dropped; the space for the tab and the \<open>d\<close> fit
  the block. What is appended is a space and \<open>d\<close>: the bytes \<open>abc\<close> are not copied, and
  the tab, with no byte emitted for the line before it, gives one space where the law asks
  for four. The law gives \<open>abc d\<close>.
\<close>

theorem expand_tabs_full_buffer_counterexample:
  "expand_tabs (\<lambda>n. True)
     \<lparr>buf_data = replicate 16777214 (CHR ''x''), asize = 16777216, unit = 64\<rparr>
     [CHR ''a'', CHR ''b'', CHR ''c'', CHR 0x09, CHR ''d'']
   = Inr \<lparr>buf_data = replicate 16777214 (CHR ''x'') @ '' d'', asize = 16777216, unit = 64\<rparr>
   \<and> tab_law 0 [CHR ''a'', CHR ''b'', CHR ''c'', CHR 0x09, CHR ''d''] = ''abc d''
   \<and> replicate 16777214 (CHR ''x'') @ '' d''
       \<noteq> replicate 16777214 (CHR ''x'')
           @ tab_law 0 [CHR ''a'', CHR ''b'', CHR ''c'', CHR 0x09, CHR ''d'']"
proof -
  have t: "tab_law 0 [CHR ''a'', CHR ''b'', CHR ''c'', CHR 0x09, CHR ''d''] = ''abc d''"
    by code_simp
  have put: "sd_bufput (\<lambda>n. True)
       \<lparr>buf_data = replicate 16777214 (CHR ''x''), asize = 16777216, unit = 64\<rparr> ''abc''
     = Inr \<lparr>buf_data = replicate 16777214 (CHR ''x''), asize = 16777216, unit = 64\<rparr>"
    by (simp add: sd_bufput_def sd_bufgrow_def bufsize_def BUFFER_MAX_ALLOC_SIZE_def
        BUF_ENOMEM_def)
  have sp: "tab_spaces (\<lambda>n. True)
       \<lparr>buf_data = replicate 16777214 (CHR ''x''), asize = 16777216, unit = 64\<rparr> 3
     = Inr (\<lparr>buf_data = replicate 16777214 (CHR ''x'') @ '' '', asize = 16777216, unit = 64\<rparr>,
            4)"
    by (subst tab_spaces.simps) (simp add: sd_bufputc_def bufsize_def)
  have putd: "sd_bufput (\<lambda>n. True)
       \<lparr>buf_data = replicate 16777214 (CHR ''x'') @ '' '', asize = 16777216, unit = 64\<rparr> ''d''
     = Inr \<lparr>buf_data = replicate 16777214 (CHR ''x'') @ '' d'', asize = 16777216, unit = 64\<rparr>"
    by (simp add: sd_bufput_def bufsize_def)
  have e: "expand_tabs (\<lambda>n. True)
     \<lparr>buf_data = replicate 16777214 (CHR ''x''), asize = 16777216, unit = 64\<rparr>
     [CHR ''a'', CHR ''b'', CHR ''c'', CHR 0x09, CHR ''d'']
   = Inr \<lparr>buf_data = replicate 16777214 (CHR ''x'') @ '' d'', asize = 16777216, unit = 64\<rparr>"
    unfolding expand_tabs_def
    by (subst expand_loop.simps, simp add: skip_plain_abc put sp,
        subst expand_loop.simps, simp add: skip_plain_d putd)
  show ?thesis unfolding t using e by simp
qed

section \<open>Trimming the end of an autolink: what the balancing step does\<close>

lemma find_langle_le: "i \<le> link_end \<Longrightarrow> find_langle data i link_end \<le> link_end"
proof (induction data i link_end rule: find_langle.induct)
  case (1 data i link_end)
  then show ?case by (subst find_langle.simps) auto
qed

lemma find_langle_takeWhile:
  "i \<le> link_end \<Longrightarrow> link_end \<le> length data \<Longrightarrow>
   find_langle data i link_end
     = i + length (takeWhile (\<lambda>b. b \<noteq> CHR ''<'') (drop i (take link_end data)))"
proof (induction data i link_end rule: find_langle.induct)
  case (1 data i link_end)
  show ?case
  proof (cases "i < link_end")
    case False
    then show ?thesis using "1.prems" by (subst find_langle.simps) simp
  next
    case True
    then have d: "drop i (take link_end data) = data ! i # drop (i + 1) (take link_end data)"
      using "1.prems" by (simp add: Cons_nth_drop_Suc [symmetric])
    show ?thesis
    proof (cases "data ! i = CHR ''<''")
      case lt: True
      then show ?thesis using True by (subst find_langle.simps) (simp add: d)
    next
      case nlt: False
      have "i + 1 \<le> link_end" using True by simp
      from "1.IH" [OF True nlt this "1.prems"(2)] show ?thesis
        using True nlt by (subst find_langle.simps) (simp add: d)
    qed
  qed
qed

lemma cut_prefix:
  assumes "link_end \<le> length data"
  shows "takeWhile (\<lambda>b. b \<noteq> CHR ''<'') (take link_end data)
     = take (find_langle data 0 link_end) data"
proof -
  let ?P = "\<lambda>b. b \<noteq> CHR ''<''"
  have k: "find_langle data 0 link_end = length (takeWhile ?P (take link_end data))"
    using find_langle_takeWhile [of 0 link_end data] assms by simp
  have le: "length (takeWhile ?P (take link_end data)) \<le> link_end"
    using length_takeWhile_le [of ?P "take link_end data"] assms by simp
  have "takeWhile ?P (take link_end data)
      = take (length (takeWhile ?P (take link_end data))) (take link_end data)"
    by (rule takeWhile_eq_take)
  also have "\<dots> = take (length (takeWhile ?P (take link_end data))) data"
    using le by (simp add: min_def)
  finally show ?thesis by (simp add: k)
qed

lemma rev_take_Suc:
  "n < length data \<Longrightarrow> rev (take (Suc n) data) = data ! n # rev (take n data)"
  by (simp add: take_Suc_conv_app_nth)

lemma alpha_back_dropWhile:
  "n < length data \<Longrightarrow>
   alpha_back data n = length (dropWhile isalpha (rev (take (Suc n) data))) - 1"
proof (induction n)
  case 0
  then show ?case by (subst alpha_back.simps) (simp add: rev_take_Suc)
next
  case (Suc n)
  then have n: "n < length data" by simp
  show ?case
  proof (cases "isalpha (data ! Suc n)")
    case True
    then show ?thesis
      using Suc.IH [OF n] Suc.prems
      by (subst alpha_back.simps) (simp add: rev_take_Suc [of "Suc n"])
  next
    case False
    then show ?thesis
      using Suc.prems by (subst alpha_back.simps) (simp add: rev_take_Suc [of "Suc n"])
  qed
qed

lemma dropWhile_rev_take:
  assumes "m \<le> length data"
  shows "dropWhile P (rev (take m data))
     = rev (take (length (dropWhile P (rev (take m data)))) data)"
proof -
  let ?xs = "rev (take m data)"
  let ?k = "length (takeWhile P ?xs)"
  have k: "?k \<le> m"
    using length_takeWhile_le [of P ?xs] assms by simp
  have "dropWhile P ?xs = drop ?k ?xs"
    by (rule dropWhile_eq_drop)
  also have "\<dots> = rev (take (m - ?k) data)"
    using assms by (simp add: drop_rev min_def)
  finally have d: "dropWhile P ?xs = rev (take (m - ?k) data)" .
  have "length (dropWhile P ?xs) = m - ?k"
    using assms by (simp add: d)
  with d show ?thesis by simp
qed

lemma isalpha_amp: "\<not> isalpha (CHR ''&'')"
  by (simp add: isalpha_def isupper_def islower_def)

lemma strchr_punct:
  "strchr_found ''?!.,'' c = (c \<in> {CHR ''?'', CHR ''!'', CHR ''.'', CHR '','', CHR 0x00})"
  by (auto simp: strchr_found_def)

lemma peel_end_spec:
  "e \<le> length data \<Longrightarrow>
   peel_end data e =
     (case peel_spec (rev (take e data)) of
        None \<Rightarrow> Inl OutOfBounds
      | Some s \<Rightarrow> Inr (length s))"
proof (induction e rule: less_induct)
  case (less e)
  let ?res = "\<lambda>xs. case peel_spec xs of None \<Rightarrow> Inl OutOfBounds | Some s \<Rightarrow> Inr (length s)"
  let ?punct = "{CHR ''?'', CHR ''!'', CHR ''.'', CHR '','', CHR 0x00}"
  show ?case
  proof (cases "e = 0")
    case True
    then show ?thesis by (subst peel_end.simps) (simp add: peel_spec.simps)
  next
    case False
    then obtain n where e: "e = Suc n" by (cases e) auto
    have n: "n < length data" using less.prems e by simp
    let ?rest = "rev (take n data)"
    let ?r = "dropWhile isalpha ?rest"
    let ?entity = "takeWhile isalpha ?rest \<noteq> [] \<and> ?r \<noteq> [] \<and> hd ?r = CHR ''&''"
    have pe: "peel_end data e =
        (if data ! n \<in> ?punct then peel_end data n
         else if data ! n = CHR '';'' then
           if n = 0 then Inl OutOfBounds
           else if alpha_back data (n - 1) < n - 1 \<and> data ! alpha_back data (n - 1) = CHR ''&''
           then peel_end data (alpha_back data (n - 1))
           else peel_end data n
         else Inr e)"
      unfolding e by (subst peel_end.simps) (auto simp: strchr_punct)
    have ps: "peel_spec (rev (take e data)) =
        (if data ! n \<in> ?punct then peel_spec ?rest
         else if data ! n = CHR '';'' then
           if n = 0 then None
           else if ?entity then peel_spec (tl ?r) else peel_spec ?rest
         else Some (data ! n # ?rest))"
      unfolding e rev_take_Suc [OF n] using n by (subst peel_spec.simps) auto
    have IHn: "peel_end data n = ?res ?rest"
      using less.IH [of n] e n by simp
    have entity: "peel_end data (alpha_back data (n - 1)) = ?res (tl ?r)
        \<and> (alpha_back data (n - 1) < n - 1 \<and> data ! alpha_back data (n - 1) = CHR ''&'')
          = ?entity" if n0: "n \<noteq> 0"
    proof -
      from n0 obtain m where nm: "n = Suc m" by (cases n) auto
      have m: "m < length data" using n nm by simp
      have ab: "alpha_back data m = length ?r - 1"
        using alpha_back_dropWhile [OF m] nm by simp
      have rr: "?r = rev (take (length ?r) data)"
        using dropWhile_rev_take [of n data isalpha] n by simp
      have "length (takeWhile isalpha ?rest @ ?r) = n"
        using n by simp
      then have len: "length (takeWhile isalpha ?rest) + length ?r = n"
        by (simp only: length_append)
      have lr: "length ?r \<le> n" using len by simp
      have "(takeWhile isalpha ?rest \<noteq> []) = (0 < length (takeWhile isalpha ?rest))"
        by (simp only: length_greater_0_conv)
      then have tw: "(takeWhile isalpha ?rest \<noteq> []) = (length ?r < n)"
        using len by linarith
      have cons: "?r = data ! k # rev (take k data)" if k: "length ?r = Suc k" for k
      proof -
        have "k < length data" using lr k n by simp
        from rev_take_Suc [OF this] rr k show ?thesis by simp
      qed
      have empty: "data ! 0 \<noteq> CHR ''&''" if "?r = []"
      proof -
        from that have "\<forall>x \<in> set ?rest. isalpha x"
          by (simp only: dropWhile_eq_Nil_conv)
        moreover have "data ! 0 \<in> set (take n data)"
          using n nm by (auto simp: in_set_conv_nth intro!: exI [of _ 0])
        ultimately show ?thesis using isalpha_amp by auto
      qed
      have a0: "alpha_back data m = 0" if "?r = []"
        unfolding ab that by simp
      have cond: "(alpha_back data m < m \<and> data ! alpha_back data m = CHR ''&'') = ?entity"
      proof (cases ?r)
        case Nil
        show ?thesis unfolding a0 [OF Nil] Nil using empty [OF Nil] by simp
      next
        case (Cons x xs)
        then have k: "length ?r = Suc (length xs)" by simp
        from cons [OF k] show ?thesis unfolding tw using ab nm k by auto
      qed
      have rec: "peel_end data (alpha_back data m) = ?res (tl ?r)"
      proof (cases ?r)
        case Nil
        show ?thesis
          unfolding a0 [OF Nil] Nil by (subst peel_end.simps) (simp add: peel_spec.simps)
      next
        case (Cons x xs)
        then have k: "length ?r = Suc (length xs)" by simp
        have t: "tl ?r = rev (take (length xs) data)"
          using cons [OF k] by simp
        have "length xs < e" "length xs \<le> length data"
          using lr k e n by simp_all
        from less.IH [OF this] show ?thesis using ab k t by simp
      qed
      from cond rec show ?thesis using nm by simp
    qed
    have len_e: "length (data ! n # ?rest) = e"
      using n e by simp
    show ?thesis
    proof (cases "data ! n \<in> ?punct")
      case True
      show ?thesis unfolding pe ps using IHn by (simp only: True if_True)
    next
      case np: False
      show ?thesis
      proof (cases "data ! n = CHR '';''")
        case False
        show ?thesis
          unfolding pe ps by (simp only: np False if_False option.case len_e)
      next
        case semi: True
        show ?thesis
        proof (cases "n = 0")
          case True
          show ?thesis
            unfolding pe ps using np semi True by simp
        next
          case n0: False
          note ent = entity [OF n0]
          show ?thesis
          proof (cases ?entity)
            case True
            show ?thesis
              unfolding pe ps using ent True np semi n0 by simp
          next
            case False
            show ?thesis
              unfolding pe ps using ent False IHn np semi n0 by auto
          qed
        qed
      qed
    qed
  qed
qed

lemma peel_spec_suffix:
  "peel_spec xs = Some s \<Longrightarrow>
   (\<exists>ys. xs = ys @ s)
   \<and> (s = [] \<or> hd s \<notin> {CHR ''?'', CHR ''!'', CHR ''.'', CHR '','', CHR '';'', CHR 0x00})"
proof (induction xs rule: peel_spec.induct)
  case 1
  then show ?case by (simp add: peel_spec.simps)
next
  case (2 c rest)
  let ?r = "dropWhile isalpha rest"
  have drop: "\<exists>ys. rest = ys @ tl ?r"
  proof -
    have "rest = takeWhile isalpha rest @ ?r" by simp
    moreover have "\<exists>zs. xs = zs @ tl xs" for xs :: "byte list"
      by (cases xs) auto
    ultimately show ?thesis by (metis append.assoc)
  qed
  from "2.prems" show ?case
    by (subst (asm) peel_spec.simps)
      (use "2.IH" drop in \<open>auto split: if_splits simp: Cons_eq_append_conv\<close>)
qed

lemma count_delims_filter:
  "j \<le> e \<Longrightarrow> e \<le> length data \<Longrightarrow>
   count_delims data copen cclose e j n_open n_close =
     (n_open + length (filter (\<lambda>b. b = copen) (drop j (take e data))),
      n_close + length (filter (\<lambda>b. b \<noteq> copen \<and> b = cclose) (drop j (take e data))))"
proof (induction data copen cclose e j n_open n_close rule: count_delims.induct)
  case (1 data copen cclose link_end j n_open n_close)
  show ?case
  proof (cases "j < link_end")
    case False
    then show ?thesis using "1.prems" by (subst count_delims.simps) simp
  next
    case True
    then have d: "drop j (take link_end data) = data ! j # drop (j + 1) (take link_end data)"
      using "1.prems" by (simp add: Cons_nth_drop_Suc [symmetric])
    have le: "j + 1 \<le> link_end" using True by simp
    show ?thesis
    proof (cases "data ! j = copen")
      case o: True
      show ?thesis
        using True o "1.IH"(1) [OF True o le "1.prems"(2)]
        by (subst count_delims.simps) (simp add: d)
    next
      case no: False
      show ?thesis
      proof (cases "data ! j = cclose")
        case c: True
        show ?thesis
          using True no c "1.IH"(2) [OF True no c le "1.prems"(2)]
          by (subst count_delims.simps) (simp add: d)
      next
        case nc: False
        show ?thesis
          using True no nc "1.IH"(3) [OF True no nc le "1.prems"(2)]
          by (subst count_delims.simps) (simp add: d)
      qed
    qed
  qed
qed

lemma copen_of_closer:
  "(copen_of c \<noteq> CHR 0x00) = (c \<in> {CHR 0x22, CHR 0x27, CHR '')'', CHR '']'', CHR ''}''})"
  by (simp add: copen_of_def)

text \<open>
  Claim C2, as amended. The function first cuts the span at its first \<open><\<close>, and then peels
  its end as \<open>peel_spec\<close> says: trailing \<open>?\<close>, \<open>!\<close>, \<open>.\<close>, \<open>,\<close> (and NUL) bytes are
  dropped, and so is a trailing \<open>;\<close>, with the \<open>&\<close> and the letters before it when it closes
  an entity reference and alone otherwise, until the span is empty or ends in another byte.
  Let \<open>s\<close> be what is left, in reverse: it is the span of the first \<open>length s\<close> bytes of
  \<open>data\<close>, within the span that was given, and it does not end in one of the peeled bytes.
  If the terminal byte \<open>c\<close> of that span is one of \<open>"\<close>, \<open>'\<close>, \<open>)\<close>, \<open>]\<close>, \<open>}\<close>, the
  function counts across the span the bytes equal to the opening byte of \<open>c\<close> and the bytes
  equal to \<open>c\<close> that are not the opening byte; when the two numbers differ the result is the
  length of the span less one, and in every other case it is the length of the span. Nothing
  is tested or peeled again after the span has been shrunk. Where the peeling comes to a
  \<open>;\<close> that is the only byte left, the function reads outside the array.
\<close>

theorem autolink_delim_balance_once:
  assumes "link_end \<le> length data"
  shows "(\<forall>s. peel_spec (rev (takeWhile (\<lambda>b. b \<noteq> CHR ''<'') (take link_end data))) = Some s
           \<longrightarrow> length s \<le> link_end \<and> rev s = take (length s) data
               \<and> (s = [] \<or> hd s \<notin> {CHR ''?'', CHR ''!'', CHR ''.'', CHR '','', CHR '';'',
                                       CHR 0x00}))
    \<and> autolink_delim data link_end max_rewind =
        (case peel_spec (rev (takeWhile (\<lambda>b. b \<noteq> CHR ''<'') (take link_end data))) of
           None \<Rightarrow> Inl OutOfBounds
         | Some s \<Rightarrow>
             Inr (if s \<noteq> [] \<and> hd s \<in> {CHR 0x22, CHR 0x27, CHR '')'', CHR '']'', CHR ''}''}
                     \<and> length (filter (\<lambda>b. b = copen_of (hd s)) s)
                       \<noteq> length (filter (\<lambda>b. b \<noteq> copen_of (hd s) \<and> b = hd s) s)
                  then length s - 1 else length s))"
proof -
  let ?k = "find_langle data 0 link_end"
  let ?cut = "rev (takeWhile (\<lambda>b. b \<noteq> CHR ''<'') (take link_end data))"
  have k: "?k \<le> link_end" by (rule find_langle_le) simp
  then have k_len: "?k \<le> length data" using assms by simp
  have cut: "?cut = rev (take ?k data)"
    by (simp only: cut_prefix [OF assms])
  have peel: "peel_end data ?k
      = (case peel_spec ?cut of None \<Rightarrow> Inl OutOfBounds | Some s \<Rightarrow> Inr (length s))"
    unfolding cut by (rule peel_end_spec [OF k_len])
  have span: "length s \<le> link_end \<and> rev s = take (length s) data
      \<and> (s = [] \<or> hd s \<notin> {CHR ''?'', CHR ''!'', CHR ''.'', CHR '','', CHR '';'', CHR 0x00})"
    if s: "peel_spec ?cut = Some s" for s
  proof -
    from peel_spec_suffix [OF s] obtain ys where ys: "?cut = ys @ s"
      and hd: "s = [] \<or> hd s \<notin> {CHR ''?'', CHR ''!'', CHR ''.'', CHR '','', CHR '';'', CHR 0x00}"
      by blast
    from ys have "take ?k data = rev s @ rev ys"
      unfolding cut by (metis rev_append rev_rev_ident)
    then have t: "take (length s) (take ?k data) = rev s" by simp
    have "length s \<le> length (take ?k data)"
      using \<open>take ?k data = rev s @ rev ys\<close> by (metis length_append length_rev le_add1)
    then have l: "length s \<le> ?k" using k_len by simp
    with t have "take (length s) data = rev s" by (simp add: min_def)
    with l k hd show ?thesis by simp
  qed
  have res: "autolink_delim data link_end max_rewind =
        Inr (if s \<noteq> [] \<and> hd s \<in> {CHR 0x22, CHR 0x27, CHR '')'', CHR '']'', CHR ''}''}
                \<and> length (filter (\<lambda>b. b = copen_of (hd s)) s)
                  \<noteq> length (filter (\<lambda>b. b \<noteq> copen_of (hd s) \<and> b = hd s) s)
             then length s - 1 else length s)"
    if s: "peel_spec ?cut = Some s" for s
  proof -
    let ?e = "length s"
    from span [OF s] have e: "?e \<le> link_end" and r: "rev s = take ?e data" by simp_all
    have e_len: "?e \<le> length data" using e assms by simp
    have p: "peel_end data ?k = Inr ?e" unfolding peel s by simp
    have cnt: "count_delims data (copen_of c) c ?e 0 0 0
        = (length (filter (\<lambda>b. b = copen_of c) s),
           length (filter (\<lambda>b. b \<noteq> copen_of c \<and> b = c) s))" for c
    proof -
      have "length (filter P (take ?e data)) = length (filter P s)" for P
        unfolding r [symmetric] by (simp only: rev_filter [symmetric] length_rev)
      then show ?thesis
        using count_delims_filter [of 0 ?e data "copen_of c" c 0 0] e_len by simp
    qed
    have last: "data ! (?e - 1) = hd s" if "s \<noteq> []"
    proof -
      from that obtain k where k: "?e = Suc k" by (cases s) auto
      have "k < length data" using e_len k by simp
      from rev_take_Suc [OF this]
      have "rev (take ?e data) = data ! k # rev (take k data)" using k by simp
      moreover have "s = rev (take ?e data)" using r by (metis rev_rev_ident)
      ultimately have "s = data ! k # rev (take k data)" by (simp only:)
      then have "hd s = data ! k" by (metis list.sel(1))
      then show ?thesis unfolding k by simp
    qed
    show ?thesis
    proof (cases "s = []")
      case True
      then show ?thesis unfolding autolink_delim_def p by simp
    next
      case False
      from last [OF False] have l1: "data ! (length s - Suc 0) = hd s" by simp
      from False show ?thesis
        unfolding autolink_delim_def p copen_of_closer [symmetric]
        by (auto simp add: Let_def cnt l1 simp del: filter.simps)
    qed
  qed
  have none: "autolink_delim data link_end max_rewind = Inl OutOfBounds"
    if "peel_spec ?cut = None"
    unfolding autolink_delim_def peel that by simp
  show ?thesis
  proof (cases "peel_spec ?cut")
    case None
    then show ?thesis using none by simp
  next
    case (Some s)
    then show ?thesis using span [OF Some] res [OF Some] by simp
  qed
qed

text \<open>
  The theorem on the span \<open>www.a.b/(x)).&amp;,<y\<close>: it is cut at the \<open><\<close>, the comma, the
  entity reference \<open>&amp;\<close> and the full stop are peeled, which leaves \<open>www.a.b/(x))\<close> of
  12 bytes with one \<open>(\<close> and two \<open>)\<close>, and the result is 11.
\<close>

theorem autolink_delim_balance_once_witness:
  "(21 :: nat) \<le> length ''www.a.b/(x)).&amp;,<y''
   \<and> peel_spec (rev (takeWhile (\<lambda>b. b \<noteq> CHR ''<'') (take 21 ''www.a.b/(x)).&amp;,<y'')))
       = Some (rev ''www.a.b/(x))'')
   \<and> autolink_delim ''www.a.b/(x)).&amp;,<y'' 21 0 = Inr 11"
proof -
  have l: "(21 :: nat) \<le> length ''www.a.b/(x)).&amp;,<y''" by simp
  have p: "peel_spec (rev (takeWhile (\<lambda>b. b \<noteq> CHR ''<'') (take 21 ''www.a.b/(x)).&amp;,<y'')))
       = Some (rev ''www.a.b/(x))'')"
    by code_simp
  have "autolink_delim ''www.a.b/(x)).&amp;,<y'' 21 0 = Inr 11"
    using autolink_delim_balance_once [OF l, of 0, THEN conjunct2]
    unfolding p by (simp add: copen_of_def)
  with l p show ?thesis by simp
qed

text \<open>
  Claim C2 as it is written fails: the span is shrunk once and not tested again. On
  \<open>www.a.b))\<close>, a span that \<^verbatim>\<open>sd_autolink__www\<close> hands over, the span has no \<open>(\<close> and two
  \<open>)\<close>; the source returns 8, the span \<open>www.a.b)\<close>, whose terminal \<open>)\<close> is as unbalanced as
  before. Shrinking and testing again, as the claim has it, ends at 7.
\<close>

theorem autolink_delim_retest_counterexample:
  "autolink_delim ''www.a.b))'' 9 0 = Inr 8
   \<and> autolink_delim_retest ''www.a.b))'' 9 0 = Inr 7
   \<and> autolink_delim ''www.a.b))'' 9 0 \<noteq> autolink_delim_retest ''www.a.b))'' 9 0"
proof -
  have a: "autolink_delim ''www.a.b))'' 9 0 = Inr 8" by code_simp
  have b: "autolink_delim_retest ''www.a.b))'' 9 0 = Inr 7" by code_simp
  show ?thesis unfolding a b by simp
qed

section \<open>The code-span recognizer\<close>

lemma count_ticks_takeWhile:
  "k \<le> length data \<Longrightarrow>
   count_ticks data k = k + length (takeWhile (\<lambda>b. b = CHR ''`'') (drop k data))"
proof (induction data k rule: count_ticks.induct)
  case (1 data nb)
  show ?case
  proof (cases "nb < length data")
    case False
    then show ?thesis using 1 by (subst count_ticks.simps) simp
  next
    case True
    then have d: "drop nb data = data ! nb # drop (Suc nb) data"
      by (simp add: Cons_nth_drop_Suc)
    show ?thesis
    proof (cases "data ! nb = CHR ''`''")
      case False
      then show ?thesis using True by (subst count_ticks.simps) (simp add: d)
    next
      case t: True
      then show ?thesis using True 1 by (subst count_ticks.simps) (simp add: d)
    qed
  qed
qed

lemma trim_begin_takeWhile:
  "f \<le> e \<Longrightarrow> e \<le> length data \<Longrightarrow>
   trim_begin data f e = f + length (takeWhile (\<lambda>b. b = CHR '' '') (drop f (take e data)))"
proof (induction data f e rule: trim_begin.induct)
  case (1 data f_begin e)
  show ?case
  proof (cases "f_begin < e")
    case False
    then show ?thesis using 1 by (subst trim_begin.simps) simp
  next
    case True
    then have d: "drop f_begin (take e data) = data ! f_begin # drop (Suc f_begin) (take e data)"
      using "1.prems" by (simp add: Cons_nth_drop_Suc [symmetric])
    show ?thesis
    proof (cases "data ! f_begin = CHR '' ''")
      case False
      then show ?thesis using True by (subst trim_begin.simps) (simp add: d)
    next
      case t: True
      then show ?thesis using True 1 by (subst trim_begin.simps) (simp add: d)
    qed
  qed
qed

lemma trim_end_takeWhile:
  "nb \<le> g \<Longrightarrow> g \<le> length data \<Longrightarrow>
   trim_end data g nb
     = g - length (takeWhile (\<lambda>b. b = CHR '' '') (rev (drop nb (take g data))))"
proof (induction data g nb rule: trim_end.induct)
  case (1 data f_end nb)
  show ?case
  proof (cases "f_end > nb")
    case False
    then show ?thesis using 1 by (subst trim_end.simps) simp
  next
    case True
    then obtain g' where g': "f_end = Suc g'" by (cases f_end) auto
    have tk: "take (Suc g') data = take g' data @ [data ! g']"
      using "1.prems" g' by (simp add: take_Suc_conv_app_nth)
    have "nb \<le> length (take g' data)"
      using True g' "1.prems" by simp
    then have "drop nb (take g' data @ [data ! g']) = drop nb (take g' data) @ [data ! g']"
      by simp
    then have r: "rev (drop nb (take (Suc g') data)) = data ! g' # rev (drop nb (take g' data))"
      unfolding tk by simp
    show ?thesis
    proof (cases "data ! (f_end - 1) = CHR '' ''")
      case False
      then show ?thesis using True g' by (subst trim_end.simps) (simp add: r)
    next
      case t: True
      have le: "length (takeWhile (\<lambda>b. b = CHR '' '') (rev (drop nb (take g' data)))) \<le> g'"
        using length_takeWhile_le [of "\<lambda>b. b = CHR '' ''" "rev (drop nb (take g' data))"]
          "1.prems" g' by simp
      have "trim_end data f_end nb = trim_end data (f_end - 1) nb"
        using True t by (subst trim_end.simps) simp
      also have "\<dots> = (f_end - 1)
          - length (takeWhile (\<lambda>b. b = CHR '' '') (rev (drop nb (take (f_end - 1) data))))"
        using True t "1.prems" by (intro "1.IH") auto
      finally show ?thesis using t g' le by (simp add: r)
    qed
  qed
qed

lemma length_takeWhile_take:
  "length (takeWhile P (take m ys)) = min m (length (takeWhile P ys))"
proof (induction ys arbitrary: m)
  case Nil
  then show ?case by simp
next
  case (Cons y ys)
  then show ?case by (cases m) auto
qed

lemma strip_spaces_take_drop:
  "strip_spaces xs =
     take (length xs - length (takeWhile (\<lambda>b. b = CHR '' '') xs)
             - length (takeWhile (\<lambda>b. b = CHR '' '') (rev xs)))
       (drop (length (takeWhile (\<lambda>b. b = CHR '' '') xs)) xs)"
proof -
  let ?P = "\<lambda>b. b = CHR '' ''"
  define n where "n = length xs"
  define a where "a = length (takeWhile ?P xs)"
  define b where "b = length (takeWhile ?P (rev xs))"
  define b' where "b' = min (n - a) b"
  have a_le: "a \<le> n" unfolding a_def n_def by (rule length_takeWhile_le)
  have 1: "dropWhile ?P xs = drop a xs"
    unfolding a_def by (rule dropWhile_eq_drop)
  have 2: "rev (drop a xs) = take (n - a) (rev xs)"
    by (simp add: rev_drop n_def)
  have 3: "dropWhile ?P (take (n - a) (rev xs)) = drop b' (take (n - a) (rev xs))"
    unfolding b'_def b_def length_takeWhile_take [symmetric] by (rule dropWhile_eq_drop)
  have b'_le: "b' \<le> n - a" by (simp add: b'_def)
  have 4: "rev (drop b' (take (n - a) (rev xs))) = take (n - a - b') (drop a xs)"
  proof -
    have "rev (drop b' (take (n - a) (rev xs))) = rev (take (n - a - b') (drop b' (rev xs)))"
      by (simp add: drop_take)
    also have "\<dots> = drop (length (drop b' (rev xs)) - (n - a - b')) (rev (drop b' (rev xs)))"
      by (simp add: rev_take)
    also have "\<dots> = drop a (take (n - b') xs)"
      using b'_le a_le by (simp add: rev_drop n_def)
    also have "\<dots> = take (n - b' - a) (drop a xs)"
      by (simp add: drop_take)
    finally show ?thesis by (simp add: diff_commute add.commute)
  qed
  have 5: "take (n - a - b') (drop a xs) = take (n - a - b) (drop a xs)"
  proof (cases "b \<le> n - a")
    case True
    then show ?thesis by (simp add: b'_def)
  next
    case False
    then show ?thesis by (simp add: b'_def)
  qed
  show ?thesis
    unfolding strip_spaces_def 1 2 3 4 5
    by (simp add: n_def a_def b_def)
qed

lemma strip_spaces_Nil_iff:
  "(strip_spaces xs = []) =
     (\<not> length (takeWhile (\<lambda>b. b = CHR '' '') xs)
          + length (takeWhile (\<lambda>b. b = CHR '' '') (rev xs)) < length xs)"
proof -
  have "length (takeWhile (\<lambda>b. b = CHR '' '') xs) \<le> length xs"
    by (rule length_takeWhile_le)
  then have "length (strip_spaces xs)
      = length xs - length (takeWhile (\<lambda>b. b = CHR '' '') xs)
          - length (takeWhile (\<lambda>b. b = CHR '' '') (rev xs))"
    by (subst strip_spaces_take_drop) simp
  moreover have "(strip_spaces xs = []) = (length (strip_spaces xs) = 0)"
    by simp
  ultimately show ?thesis by arith
qed

lemma find_close_inv:
  "1 \<le> nb \<Longrightarrow> nb \<le> e \<Longrightarrow> e \<le> length data \<Longrightarrow> i \<le> nb \<Longrightarrow> i \<le> e - nb \<Longrightarrow>
   (\<forall>k<i. data ! (e - 1 - k) = CHR ''`'') \<Longrightarrow>
   (i < e - nb \<longrightarrow> data ! (e - 1 - i) \<noteq> CHR ''`'') \<Longrightarrow>
   (\<forall>q. nb \<le> q \<and> q + nb \<le> e \<and> (q + nb < e \<or> i < nb) \<longrightarrow> \<not> tick_run data q nb) \<Longrightarrow>
   find_close data nb e i = (e', i') \<Longrightarrow>
   e' \<le> length data \<and> i' \<le> nb \<and> i' \<le> e' - nb \<and> nb \<le> e'
   \<and> (\<forall>k<i'. data ! (e' - 1 - k) = CHR ''`'')
   \<and> (\<forall>q. nb \<le> q \<and> q + nb \<le> e' \<and> (q + nb < e' \<or> i' < nb) \<longrightarrow> \<not> tick_run data q nb)
   \<and> (i' < nb \<longrightarrow> e' = length data)"
proof (induction data nb e i rule: find_close.induct)
  case (1 data nb e i)
  note nb = "1.prems"(1) and nbe = "1.prems"(2) and elen = "1.prems"(3)
    and inb = "1.prems"(4) and ie = "1.prems"(5) and ticks = "1.prems"(6)
    and nontick = "1.prems"(7) and nw = "1.prems"(8) and fc = "1.prems"(9)
  show ?case
  proof (cases "e < length data \<and> i < nb")
    case False
    then have "find_close data nb e i = (e, i)"
      by (subst find_close.simps) auto
    then have eq: "e' = e" "i' = i" using fc by simp_all
    have "i < nb \<longrightarrow> e = length data" using False elen by auto
    then show ?thesis
      unfolding eq using elen inb ie nbe ticks nw by blast
  next
    case True
    let ?i2 = "if data ! e = CHR ''`'' then i + 1 else 0"
    have "find_close data nb e i = find_close data nb (e + 1) ?i2"
      using True by (subst find_close.simps) simp
    then have fc2: "find_close data nb (e + 1) ?i2 = (e', i')"
      using fc by simp
    have a1: "nb \<le> e + 1" using nbe by simp
    have a2: "e + 1 \<le> length data" using True by simp
    have a3: "?i2 \<le> nb" using True by simp
    have a4: "?i2 \<le> e + 1 - nb" using ie nbe by auto
    have a5: "\<forall>k<?i2. data ! (e + 1 - 1 - k) = CHR ''`''"
    proof (intro allI impI)
      fix k assume k: "k < ?i2"
      show "data ! (e + 1 - 1 - k) = CHR ''`''"
      proof (cases k)
        case 0
        then show ?thesis using k by (auto split: if_splits)
      next
        case (Suc k')
        then have "k' < i" using k by (auto split: if_splits)
        then have "data ! (e - 1 - k') = CHR ''`''" using ticks by simp
        then show ?thesis using Suc by simp
      qed
    qed
    have a6: "?i2 < e + 1 - nb \<longrightarrow> data ! (e + 1 - 1 - ?i2) \<noteq> CHR ''`''"
    proof (cases "data ! e = CHR ''`''")
      case False
      then show ?thesis by simp
    next
      case t: True
      show ?thesis
      proof
        assume "?i2 < e + 1 - nb"
        then have "i < e - nb" using t by simp
        then have "data ! (e - 1 - i) \<noteq> CHR ''`''" using nontick by simp
        then show "data ! (e + 1 - 1 - ?i2) \<noteq> CHR ''`''" using t by simp
      qed
    qed
    have a7: "\<forall>q. nb \<le> q \<and> q + nb \<le> e + 1 \<and> (q + nb < e + 1 \<or> ?i2 < nb)
        \<longrightarrow> \<not> tick_run data q nb"
    proof (intro allI impI)
      fix q
      assume q: "nb \<le> q \<and> q + nb \<le> e + 1 \<and> (q + nb < e + 1 \<or> ?i2 < nb)"
      show "\<not> tick_run data q nb"
      proof (cases "q + nb \<le> e")
        case le: True
        then show ?thesis using nw q True by blast
      next
        case False
        then have qe: "q + nb = e + 1" and i2: "?i2 < nb" using q by auto
        show ?thesis
        proof
          assume w: "tick_run data q nb"
          then have all: "\<And>k. k < nb \<Longrightarrow> data ! (q + k) = CHR ''`''"
            by (simp add: tick_run_def)
          have "q + (nb - 1) = e" using qe nb by simp
          then have te: "data ! e = CHR ''`''" using all [of "nb - 1"] nb by simp
          then have i1: "i + 1 < nb" using i2 by simp
          show False
          proof (cases "i < e - nb")
            case True
            then have nt: "data ! (e - 1 - i) \<noteq> CHR ''`''" using nontick by simp
            have "q + (nb - 2 - i) = e - 1 - i" using qe i1 by simp
            moreover have "nb - 2 - i < nb" using i1 by simp
            ultimately have "data ! (e - 1 - i) = CHR ''`''"
              using all [of "nb - 2 - i"] by simp
            with nt show False by simp
          next
            case False
            then have "i = e - nb" using ie by simp
            then have "q = i + 1" using qe nbe by simp
            then show False using q i1 by simp
          qed
        qed
      qed
    qed
    from "1.IH" [OF True nb a1 a2 a3 a4 a5 a6 a7 fc2] show ?thesis .
  qed
qed

lemma find_close_result:
  assumes nb: "1 \<le> nb" and len: "nb \<le> length data"
    and fc: "find_close data nb nb 0 = (e', i')"
  shows "(i' < nb \<and> e' = length data \<and> (\<forall>q. nb \<le> q \<longrightarrow> \<not> tick_run data q nb))
       \<or> (i' = nb \<and> nb \<le> e' - nb \<and> e' \<le> length data \<and> tick_run data (e' - nb) nb
          \<and> (\<forall>q. nb \<le> q \<and> q < e' - nb \<longrightarrow> \<not> tick_run data q nb))"
proof -
  have nw0: "\<forall>q. nb \<le> q \<and> q + nb \<le> nb \<and> (q + nb < nb \<or> 0 < nb) \<longrightarrow> \<not> tick_run data q nb"
    using nb by auto
  from find_close_inv [OF nb le_refl len _ _ _ _ nw0 fc]
  have e'l: "e' \<le> length data" and i'nb: "i' \<le> nb" and i'e: "i' \<le> e' - nb"
    and nbe: "nb \<le> e'" and ticks: "\<forall>k<i'. data ! (e' - 1 - k) = CHR ''`''"
    and nw: "\<forall>q. nb \<le> q \<and> q + nb \<le> e' \<and> (q + nb < e' \<or> i' < nb) \<longrightarrow> \<not> tick_run data q nb"
    and ex: "i' < nb \<longrightarrow> e' = length data"
    by simp_all
  show ?thesis
  proof (cases "i' < nb")
    case True
    then have el: "e' = length data" using ex by simp
    have "\<forall>q. nb \<le> q \<longrightarrow> \<not> tick_run data q nb"
    proof (intro allI impI)
      fix q assume q: "nb \<le> q"
      show "\<not> tick_run data q nb"
      proof (cases "q + nb \<le> e'")
        case le: True
        then show ?thesis using nw q True by blast
      next
        case False
        then show ?thesis using el by (simp add: tick_run_def)
      qed
    qed
    then show ?thesis using True el by simp
  next
    case False
    then have i': "i' = nb" using i'nb by simp
    have w: "tick_run data (e' - nb) nb"
      unfolding tick_run_def
    proof (intro conjI allI impI)
      show "e' - nb + nb \<le> length data" using e'l nbe by simp
    next
      fix k assume k: "k < nb"
      then have "nb - 1 - k < i'" using i' by simp
      then have "data ! (e' - 1 - (nb - 1 - k)) = CHR ''`''" using ticks by blast
      moreover have "e' - 1 - (nb - 1 - k) = e' - nb + k" using k nbe nb by simp
      ultimately show "data ! (e' - nb + k) = CHR ''`''" by simp
    qed
    have "\<forall>q. nb \<le> q \<and> q < e' - nb \<longrightarrow> \<not> tick_run data q nb"
    proof (intro allI impI)
      fix q assume q: "nb \<le> q \<and> q < e' - nb"
      then have "q + nb \<le> e' \<and> q + nb < e'" by auto
      then show "\<not> tick_run data q nb" using nw q by blast
    qed
    then show ?thesis using i' i'e e'l w by simp
  qed
qed

lemma length_takeWhile_append_stop:
  "ys \<noteq> [] \<Longrightarrow> \<not> P (hd ys) \<Longrightarrow>
   length (takeWhile P (xs @ ys)) = length (takeWhile P xs)"
  by (induction xs) (auto simp: takeWhile_eq_Nil_iff)

lemma char_codespan_no_close:
  assumes nb: "nb = length (takeWhile (\<lambda>b. b = CHR ''`'') data)" and pos: "1 \<le> nb"
    and none: "\<forall>p. nb \<le> p \<longrightarrow> \<not> tick_run data p nb"
  shows "char_codespan cb ob opaque data = (0, ob, opaque)"
proof -
  have ct: "count_ticks data 0 = nb" by (simp add: count_ticks_takeWhile nb)
  have len: "nb \<le> length data" unfolding nb by (rule length_takeWhile_le)
  obtain e' i' where fc: "find_close data nb nb 0 = (e', i')" by (cases "find_close data nb nb 0")
  from find_close_result [OF pos len fc] none
  have "i' < nb \<and> e' = length data" by auto
  then show ?thesis by (simp add: char_codespan_def ct fc)
qed

lemma char_codespan_close:
  assumes nb: "nb = length (takeWhile (\<lambda>b. b = CHR ''`'') data)" and pos: "1 \<le> nb"
    and p: "nb \<le> p" and w: "tick_run data p nb"
    and least: "\<forall>q. nb \<le> q \<and> q < p \<longrightarrow> \<not> tick_run data q nb"
  shows "char_codespan cb ob opaque data =
     (case cb ob (if strip_spaces (take (p - nb) (drop nb data)) = [] then None
                  else Some (strip_spaces (take (p - nb) (drop nb data)))) opaque of
        (r, ob', opaque') \<Rightarrow> (if r = 0 then 0 else p + nb, ob', opaque'))"
proof -
  let ?S = "\<lambda>b. b = CHR '' ''"
  define interior where "interior = take (p - nb) (drop nb data)"
  define a where "a = length (takeWhile ?S interior)"
  define b where "b = length (takeWhile ?S (rev interior))"
  have ct: "count_ticks data 0 = nb" by (simp add: count_ticks_takeWhile nb)
  have len: "nb \<le> length data" unfolding nb by (rule length_takeWhile_le)
  have plen: "p + nb \<le> length data" using w by (simp add: tick_run_def)
  obtain e' i' where fc: "find_close data nb nb 0 = (e', i')" by (cases "find_close data nb nb 0")
  from find_close_result [OF pos len fc] p w
  have i': "i' = nb" and w': "tick_run data (e' - nb) nb" and nbe: "nb \<le> e' - nb"
    and least': "\<forall>q. nb \<le> q \<and> q < e' - nb \<longrightarrow> \<not> tick_run data q nb"
    by auto
  have "\<not> e' - nb < p" using least w' nbe by blast
  moreover have "\<not> p < e' - nb" using least' w p by blast
  ultimately have "e' - nb = p" by simp
  then have e': "e' = p + nb" using nbe pos by simp
  have n: "length interior = p - nb" using plen by (simp add: interior_def)
  have int2: "drop nb (take p data) = interior" by (simp add: interior_def drop_take)
  have "\<And>k. k < nb \<Longrightarrow> data ! (p + k) = CHR ''`''" using w by (simp add: tick_run_def)
  from this [of 0] have tp: "data ! p = CHR ''`''" using pos by simp
  have split: "drop nb (take (p + nb) data) = interior @ take nb (drop p data)"
  proof -
    have "take (p + nb) data = take p data @ take nb (drop p data)" by (rule take_add)
    moreover have "nb \<le> length (take p data)" using p plen by simp
    ultimately show ?thesis using int2 by simp
  qed
  have ne: "take nb (drop p data) \<noteq> []" using pos plen by simp
  have "hd (take nb (drop p data)) = data ! p"
    using pos plen by (simp add: hd_drop_conv_nth)
  then have stop: "\<not> ?S (hd (take nb (drop p data)))" using tp by simp
  have fb: "trim_begin data nb (p + nb) = nb + a"
    using plen by (simp add: trim_begin_takeWhile split a_def
        length_takeWhile_append_stop
          [where P = "\<lambda>b. b = CHR '' ''" and ys = "take nb (drop p data)", OF ne stop])
  have fe: "trim_end data p nb = p - b"
    using p plen by (simp add: trim_end_takeWhile int2 b_def)
  have b_le: "b \<le> p - nb"
    using length_takeWhile_le [of ?S "rev interior"] by (simp add: b_def n)
  have cond: "(nb + a < p - b) = (strip_spaces interior \<noteq> [])"
    using b_le p by (simp add: strip_spaces_Nil_iff a_def b_def n) arith
  have span_eq: "take (p - b - (nb + a)) (drop (nb + a) data) = strip_spaces interior"
  proof -
    have "strip_spaces interior = take (p - nb - a - b) (drop a interior)"
      by (subst strip_spaces_take_drop) (simp add: a_def b_def n)
    also have "drop a interior = take (p - nb - a) (drop (nb + a) data)"
      by (simp add: interior_def drop_take add.commute)
    also have "take (p - nb - a - b) (take (p - nb - a) (drop (nb + a) data))
        = take (p - nb - a - b) (drop (nb + a) data)"
      by simp
    also have "p - nb - a - b = p - b - (nb + a)" by simp
    finally show ?thesis by simp
  qed
  have "char_codespan cb ob opaque data =
     (case cb ob
        (if trim_begin data nb (p + nb) < trim_end data p nb
         then Some (take (trim_end data p nb - trim_begin data nb (p + nb))
                      (drop (trim_begin data nb (p + nb)) data))
         else None) opaque of
        (r, ob', opaque') \<Rightarrow> (if r = 0 then 0 else p + nb, ob', opaque'))"
    using pos by (simp add: char_codespan_def ct fc i' e' Let_def)
  also have "\<dots> =
     (case cb ob (if strip_spaces interior \<noteq> [] then Some (strip_spaces interior) else None)
        opaque of
        (r, ob', opaque') \<Rightarrow> (if r = 0 then 0 else p + nb, ob', opaque'))"
    unfolding fb fe cond span_eq ..
  also have "(if strip_spaces interior \<noteq> [] then Some (strip_spaces interior) else None)
      = (if strip_spaces interior = [] then None else Some (strip_spaces interior))"
    by simp
  finally show ?thesis unfolding interior_def .
qed

text \<open>
  Claim C1, as amended. Let the input begin with a run of \<open>nb\<close> \<open>\<ge>\<close> 1 backticks (all the
  backticks it begins with). If no \<open>nb\<close> backticks in a row stand anywhere behind that run,
  the recognizer returns 0 and the callback is not called. Otherwise let \<open>p\<close> be the first
  position behind the opening run where \<open>nb\<close> backticks in a row begin, whether or not more
  backticks follow them: the \<^verbatim>\<open>codespan\<close> callback is called once, with the bytes between
  the opening run and \<open>p\<close> stripped of all their leading and trailing spaces (a NULL text
  when nothing is left), and the recognizer returns \<open>p + nb\<close>, or 0 when the callback
  returned 0.
\<close>

theorem char_codespan_first_ticks:
  assumes "nb = length (takeWhile (\<lambda>b. b = CHR ''`'') data)" and "1 \<le> nb"
  shows "((\<forall>p. nb \<le> p \<longrightarrow> \<not> tick_run data p nb) \<longrightarrow>
            char_codespan cb ob opaque data = (0, ob, opaque))
       \<and> (\<forall>p. nb \<le> p \<and> tick_run data p nb
               \<and> (\<forall>q. nb \<le> q \<and> q < p \<longrightarrow> \<not> tick_run data q nb) \<longrightarrow>
            char_codespan cb ob opaque data =
              (case cb ob (if strip_spaces (take (p - nb) (drop nb data)) = [] then None
                           else Some (strip_spaces (take (p - nb) (drop nb data)))) opaque of
                 (r, ob', opaque') \<Rightarrow> (if r = 0 then 0 else p + nb, ob', opaque')))"
proof (intro conjI impI allI)
  assume "\<forall>p. nb \<le> p \<longrightarrow> \<not> tick_run data p nb"
  then show "char_codespan cb ob opaque data = (0, ob, opaque)"
    by (rule char_codespan_no_close [OF assms])
next
  fix p
  assume a: "nb \<le> p \<and> tick_run data p nb
    \<and> (\<forall>q. nb \<le> q \<and> q < p \<longrightarrow> \<not> tick_run data q nb)"
  then have 1: "nb \<le> p" and 2: "tick_run data p nb"
    and 3: "\<forall>q. nb \<le> q \<and> q < p \<longrightarrow> \<not> tick_run data q nb"
    by simp_all
  show "char_codespan cb ob opaque data =
      (case cb ob (if strip_spaces (take (p - nb) (drop nb data)) = [] then None
                   else Some (strip_spaces (take (p - nb) (drop nb data)))) opaque of
         (r, ob', opaque') \<Rightarrow> (if r = 0 then 0 else p + nb, ob', opaque'))"
    by (rule char_codespan_close [OF assms 1 2 3])
qed

text \<open>
  The theorem on \<open>``  a`b  `` x\<close> with a callback that records its argument in the
  renderer's state: the first two backticks in a row behind the opening run begin at
  position 9, and the text is \<open>a`b\<close>.
\<close>

theorem char_codespan_first_ticks_witness:
  "char_codespan (\<lambda>ob text opaque. (1, ob, text # opaque))
      \<lparr>buf_data = [], asize = 0, unit = 64\<rparr> [] ''``  a`b  `` x''
   = (11, \<lparr>buf_data = [], asize = 0, unit = 64\<rparr>, [Some ''a`b''])"
proof -
  let ?d = "''``  a`b  `` x''"
  have nb: "(2 :: nat) = length (takeWhile (\<lambda>b. b = CHR ''`'') ?d)" by simp
  have one: "(1 :: nat) \<le> 2" by simp
  have two: "\<And>q. tick_run ?d q 2 = (q + 2 \<le> 13 \<and> ?d ! q = CHR ''`'' \<and> ?d ! (q + 1) = CHR ''`'')"
    by (auto simp: tick_run_def numeral_2_eq_2 less_Suc_eq)
  have w: "tick_run ?d 9 2" unfolding two by simp
  have least: "\<forall>q. 2 \<le> q \<and> q < 9 \<longrightarrow> \<not> tick_run ?d q 2"
  proof (intro allI impI)
    fix q :: nat assume "2 \<le> q \<and> q < 9"
    then have "q = 2 \<or> q = 3 \<or> q = 4 \<or> q = 5 \<or> q = 6 \<or> q = 7 \<or> q = 8" by arith
    then show "\<not> tick_run ?d q 2"
      unfolding two by (elim disjE) simp_all
  qed
  have prem: "(2 :: nat) \<le> 9 \<and> tick_run ?d 9 2
      \<and> (\<forall>q. 2 \<le> q \<and> q < 9 \<longrightarrow> \<not> tick_run ?d q 2)"
    using w least by simp
  have s: "strip_spaces (take (9 - 2) (drop 2 ?d)) = ''a`b''" by code_simp
  note r = char_codespan_first_ticks [OF nb one, THEN conjunct2, THEN spec, THEN mp, OF prem]
  show ?thesis unfolding r s by simp
qed

text \<open>
  Claim C1 as it is written fails twice. On \<open>`a``b`\<close> the opening backtick is matched with
  the first backtick of the pair at position 2, which is no run of exactly one backtick (the
  first such run stands at position 5): 3 bytes are consumed and the text is \<open>a\<close>. On
  \<open>`  a  `\<close> the text is \<open>a\<close>, with both spaces gone on either side, where trimming by one
  leaves a space on either side.
\<close>

theorem char_codespan_exact_run_counterexample:
  "char_codespan (\<lambda>ob text opaque. (1, ob, text # opaque))
      \<lparr>buf_data = [], asize = 0, unit = 64\<rparr> [] ''`a``b`''
     = (3, \<lparr>buf_data = [], asize = 0, unit = 64\<rparr>, [Some ''a''])
   \<and> \<not> exact_run ''`a``b`'' 2 1
   \<and> exact_run ''`a``b`'' 5 1
   \<and> char_codespan (\<lambda>ob text opaque. (1, ob, text # opaque))
      \<lparr>buf_data = [], asize = 0, unit = 64\<rparr> [] ''`  a  `''
     = (7, \<lparr>buf_data = [], asize = 0, unit = 64\<rparr>, [Some ''a''])
   \<and> trim_one ''  a  '' = '' a ''
   \<and> Some ''a'' \<noteq> Some (trim_one ''  a  '')"
proof -
  have 1: "char_codespan (\<lambda>ob text opaque. (1, ob, text # opaque))
      \<lparr>buf_data = [], asize = 0, unit = 64\<rparr> [] ''`a``b`''
     = (3, \<lparr>buf_data = [], asize = 0, unit = 64\<rparr>, [Some ''a''])"
    by code_simp
  have 2: "\<not> exact_run ''`a``b`'' 2 1" by (simp add: exact_run_def)
  have 3: "exact_run ''`a``b`'' 5 1" by (simp add: exact_run_def)
  have 4: "char_codespan (\<lambda>ob text opaque. (1, ob, text # opaque))
      \<lparr>buf_data = [], asize = 0, unit = 64\<rparr> [] ''`  a  `''
     = (7, \<lparr>buf_data = [], asize = 0, unit = 64\<rparr>, [Some ''a''])"
    by code_simp
  have 5: "trim_one ''  a  '' = '' a ''" by (simp add: trim_one_def)
  from 1 2 3 4 5 show ?thesis by simp
qed

end
